theory Spec2Isabelle
  imports Complex_Main "HOL-Library.AList" "HOL-Library.Sublist" "HOL-Library.Multiset"
begin

section \<open>Strings and host primitives\<close>

text \<open>
  A JavaScript string is modelled as a \<open>string\<close> (a list of characters, one per code
  unit). \<open>js_slice\<close> is \<open>String.prototype.slice\<close> and \<open>Array.prototype.slice\<close> on
  integer arguments: a negative index counts from the end, indices are clamped to the
  length, and an empty result is returned when the bounds cross.
\<close>

definition js_slice :: "'a list \<Rightarrow> int \<Rightarrow> int \<Rightarrow> 'a list" where
  "js_slice xs start end =
     (let n = int (length xs);
          from = (if start < 0 then max (n + start) 0 else min start n);
          to = (if end < 0 then max (n + end) 0 else min end n)
      in take (nat (to - from)) (drop (nat from) xs))"

text \<open>The whitespace of \<open>\s\<close> and \<open>trim\<close>, restricted to single-byte characters.\<close>

definition js_space :: "char \<Rightarrow> bool" where
  "js_space c = (c \<in> set [CHR 0x09, CHR 0x0A, CHR 0x0B, CHR 0x0C, CHR 0x0D, CHR '' ''])"

definition js_trim :: "string \<Rightarrow> string" where
  "js_trim s = rev (dropWhile js_space (rev (dropWhile js_space s)))"

text \<open>\<open>x || d\<close> on an optional number: an absent value and \<open>0\<close> are both falsy.\<close>

definition or_default :: "int option \<Rightarrow> int \<Rightarrow> int" where
  "or_default x d = (case x of None \<Rightarrow> d | Some v \<Rightarrow> if v = 0 then d else v)"

section \<open>JSON values\<close>

text \<open>
  A value of JavaScript's \<open>any\<close> as far as JSON reaches: what \<open>JSON.parse\<close> returns
  and what task arguments, task results and context variables hold. An object is its
  list of entries in \<open>Object.entries\<close> order.
\<close>

datatype json =
    JNull
  | JBool bool
  | JNum real
  | JStr string
  | JArr "json list"
  | JObj "(string \<times> json) list"

text \<open>Property access \<open>v.key\<close>: \<open>None\<close> is \<open>undefined\<close>.\<close>

definition json_get :: "json \<Rightarrow> string \<Rightarrow> json option" where
  "json_get v k = (case v of JObj kvs \<Rightarrow> map_of kvs k | _ \<Rightarrow> None)"

text \<open>
  \<open>JSON.parse\<close> is the host's parser. A text whose first character after JSON
  whitespace cannot start a JSON value (and the empty text) is a syntax error; for the
  other texts the parser is the parameter \<open>parser\<close>, \<open>None\<close> being a syntax error.
\<close>

definition json_ws :: "char \<Rightarrow> bool" where
  "json_ws c = (c \<in> set [CHR 0x09, CHR 0x0A, CHR 0x0D, CHR '' ''])"

definition json_start :: "char \<Rightarrow> bool" where
  "json_start c = (c \<in> set (''{[-0123456789tfn'' @ [CHR 0x22]))"

definition JSON_parse :: "(string \<Rightarrow> json option) \<Rightarrow> string \<Rightarrow> json option" where
  "JSON_parse parser s =
     (case dropWhile json_ws s of
        [] \<Rightarrow> None
      | c # _ \<Rightarrow> if json_start c then parser s else None)"

section \<open>DataChunker\<close>

datatype chunk_method = FixedSize | Semantic | Structural | Custom

record ChunkingStrategy =
  chunking_method :: chunk_method
  chunkSize :: "int option"
  overlap :: "int option"
  separator :: "string option"
  customChunker :: "(string \<Rightarrow> string list) option"

text \<open>
  The \<open>while\<close> loop of \<open>fixedSizeChunking\<close>, with \<open>start\<close> and \<open>chunks\<close> as loop
  state. With an overlap as large as the chunk size the loop does not advance, so the
  result is an option: \<open>None\<close> is a loop that never returns.
\<close>

partial_function (option) fixedSizeChunking_loop ::
  "string \<Rightarrow> int \<Rightarrow> int \<Rightarrow> int \<Rightarrow> string list \<Rightarrow> string list option" where
  "fixedSizeChunking_loop text csize ovl start chunks =
     (if start < int (length text) then
        (let end = min (start + csize) (int (length text));
             chunks' = chunks @ [js_slice text start end];
             start' = end - ovl
         in if start' \<ge> int (length text) - ovl then Some chunks'
            else fixedSizeChunking_loop text csize ovl start' chunks')
      else Some chunks)"

definition fixedSizeChunking :: "string \<Rightarrow> int \<Rightarrow> int \<Rightarrow> string list option" where
  "fixedSizeChunking text csize ovl = fixedSizeChunking_loop text csize ovl 0 []"

text \<open>
  \<open>text.match(/[^.!?]+[.!?]+/g)\<close>: the successive leftmost matches of a non-empty run of
  non-terminators followed by a non-empty run of terminators. The scanner carries the
  two runs read so far; a terminator with no run before it is skipped, and a final run
  with no terminator after it matches nothing.
\<close>

definition is_terminator :: "char \<Rightarrow> bool" where
  "is_terminator c = (c \<in> set ''.!?'')"

fun match_sentences :: "string \<Rightarrow> string \<Rightarrow> string \<Rightarrow> string list" where
  "match_sentences body terms [] = (if body \<noteq> [] \<and> terms \<noteq> [] then [body @ terms] else [])"
| "match_sentences body terms (c # cs) =
     (if is_terminator c then
        (if body = [] then match_sentences [] [] cs
         else match_sentences body (terms @ [c]) cs)
      else
        (if terms \<noteq> [] then (body @ terms) # match_sentences [c] [] cs
         else match_sentences (body @ [c]) [] cs))"

fun semanticChunking_loop :: "int \<Rightarrow> string list \<Rightarrow> string \<Rightarrow> string list \<Rightarrow> string list" where
  "semanticChunking_loop targetSize [] currentChunk chunks =
     (if length currentChunk > 0 then chunks @ [js_trim currentChunk] else chunks)"
| "semanticChunking_loop targetSize (sentence # rest) currentChunk chunks =
     (if int (length currentChunk) + int (length sentence) > targetSize \<and> length currentChunk > 0
      then semanticChunking_loop targetSize rest sentence (chunks @ [js_trim currentChunk])
      else semanticChunking_loop targetSize rest (currentChunk @ sentence) chunks)"

definition semanticChunking :: "string \<Rightarrow> int \<Rightarrow> string list" where
  "semanticChunking text targetSize =
     (let m = match_sentences [] [] text;
          sentences = (if m = [] then [text] else m)
      in semanticChunking_loop targetSize sentences [] [])"

text \<open>
  \<open>text.split(separator)\<close> for a string separator: the empty separator splits into
  single characters, any other one splits at its successive non-overlapping occurrences.
\<close>

function js_split_at :: "string \<Rightarrow> string \<Rightarrow> string \<Rightarrow> string list" where
  "js_split_at sep acc s =
     (if s = [] then [acc]
      else if sep \<noteq> [] \<and> prefix sep s then acc # js_split_at sep [] (drop (length sep) s)
      else js_split_at sep (acc @ [hd s]) (tl s))"
  by pat_completeness auto
termination
  by (relation "measure (\<lambda>(sep, acc, s). length s)") auto

definition js_split :: "string \<Rightarrow> string \<Rightarrow> string list" where
  "js_split s sep = (if sep = [] then map (\<lambda>c. [c]) s else js_split_at sep [] s)"

definition structuralChunking :: "string \<Rightarrow> string \<Rightarrow> string list" where
  "structuralChunking text sep =
     filter (\<lambda>chunk. length chunk > 0) (map js_trim (js_split text sep))"

text \<open>
  \<open>chunkString\<close> returns \<open>None\<close> when the chunking loop never returns, \<open>Some (Inl msg)\<close>
  when it throws and \<open>Some (Inr chunks)\<close> otherwise. The \<open>default\<close> branch of the
  \<open>switch\<close> is unreachable for the four methods of the type.
\<close>

definition chunkString :: "string \<Rightarrow> ChunkingStrategy \<Rightarrow> (string + string list) option" where
  "chunkString data strategy =
     (case chunking_method strategy of
        FixedSize \<Rightarrow>
          map_option Inr
            (fixedSizeChunking data (or_default (chunkSize strategy) 1000) (or_default (overlap strategy) 0))
      | Semantic \<Rightarrow> Some (Inr (semanticChunking data (or_default (chunkSize strategy) 1000)))
      | Structural \<Rightarrow>
          Some (Inr (structuralChunking data
            (case separator strategy of None \<Rightarrow> [CHR 0x0A, CHR 0x0A]
             | Some sep \<Rightarrow> if sep = [] then [CHR 0x0A, CHR 0x0A] else sep)))
      | Custom \<Rightarrow>
          (case customChunker strategy of
             None \<Rightarrow> Some (Inl ''Custom chunker function required'')
           | Some f \<Rightarrow> Some (Inr (f data))))"

text \<open>\<open>chunkArray\<close>: the \<open>for\<close> loop over \<open>i\<close>, which never exits for a negative step.\<close>

partial_function (option) chunkArray_loop ::
  "'a list \<Rightarrow> int \<Rightarrow> int \<Rightarrow> 'a list list \<Rightarrow> 'a list list option" where
  "chunkArray_loop data csize i chunks =
     (if i < int (length data)
      then chunkArray_loop data csize (i + csize) (chunks @ [js_slice data i (i + csize)])
      else Some chunks)"

definition chunkArray :: "'a list \<Rightarrow> ChunkingStrategy \<Rightarrow> 'a list list option" where
  "chunkArray data strategy = chunkArray_loop data (or_default (chunkSize strategy) 10) 0 []"

section \<open>Fixed-size chunking without overlap\<close>

lemma js_slice_window:
  assumes "0 \<le> a" "a < int (length xs)" "1 \<le> n"
  shows "js_slice xs a (min (a + n) (int (length xs))) = take (nat n) (drop (nat a) xs)"
proof (cases "a + n \<le> int (length xs)")
  case True
  then show ?thesis
    using assms by (simp add: js_slice_def Let_def min_def)
next
  case False
  then have "length (drop (nat a) xs) \<le> nat n" "length (drop (nat a) xs) \<le> nat (int (length xs) - a)"
    using assms by simp_all
  then have "take (nat n) (drop (nat a) xs) = take (nat (int (length xs) - a)) (drop (nat a) xs)"
    by simp
  then show ?thesis
    using assms False by (simp add: js_slice_def Let_def min_def)
qed

lemma fixedSizeChunking_loop_no_overlap:
  assumes "1 \<le> n" "0 \<le> start" "start < int (length text)"
  shows "\<exists>cs. fixedSizeChunking_loop text n 0 start chunks = Some (chunks @ cs)
           \<and> concat cs = drop (nat start) text \<and> (\<forall>c \<in> set cs. int (length c) \<le> n)"
  using assms
proof (induction "length text - nat start" arbitrary: start chunks rule: less_induct)
  case less
  let ?e = "min (start + n) (int (length text))"
  let ?c = "js_slice text start ?e"
  have c: "?c = take (nat n) (drop (nat start) text)"
    using less.prems by (simp add: js_slice_window)
  have clen: "int (length ?c) \<le> n"
    unfolding c using less.prems by simp
  show ?case
  proof (cases "?e \<ge> int (length text)")
    case True
    then have "fixedSizeChunking_loop text n 0 start chunks = Some (chunks @ [?c])"
      using less.prems by (subst fixedSizeChunking_loop.simps) (simp add: Let_def)
    moreover have "?c = drop (nat start) text"
      unfolding c using True less.prems by simp
    ultimately show ?thesis using clen by auto
  next
    case False
    then have e: "?e = start + n" "start + n < int (length text)"
      by (auto simp: min_def split: if_splits)
    have step: "fixedSizeChunking_loop text n 0 start chunks
                  = fixedSizeChunking_loop text n 0 (start + n) (chunks @ [?c])"
      using less.prems False by (subst fixedSizeChunking_loop.simps) (simp add: Let_def e)
    have "length text - nat (start + n) < length text - nat start"
      using less.prems e by linarith
    from less.hyps[OF this, of "chunks @ [?c]"] less.prems e
    obtain cs where cs: "fixedSizeChunking_loop text n 0 (start + n) (chunks @ [?c]) = Some ((chunks @ [?c]) @ cs)"
      "concat cs = drop (nat (start + n)) text" "\<forall>c \<in> set cs. int (length c) \<le> n"
      by auto
    have "nat (start + n) = nat n + nat start" using less.prems by linarith
    then have "concat (?c # cs) = drop (nat start) text"
      using cs(2) by (simp add: c drop_drop[symmetric] del: drop_drop)
    then show ?thesis
      using step cs clen by (intro exI[of _ "?c # cs"]) auto
  qed
qed

text \<open>
  C10. For every string \<open>s\<close> and chunk size \<open>n \<ge> 1\<close>, fixed-size chunking with overlap 0
  (given as 0 or left out) returns: the loop terminates, every chunk has at most \<open>n\<close>
  characters, and the chunks concatenated in order are \<open>s\<close>.
\<close>

theorem fixedSizeChunking_no_overlap_partitions:
  assumes "1 \<le> n"
    and "chunking_method strategy = FixedSize"
    and "chunkSize strategy = Some n"
    and "overlap strategy = Some 0 \<or> overlap strategy = None"
  shows "\<exists>chunks. chunkString s strategy = Some (Inr chunks)
           \<and> fixedSizeChunking s n 0 = Some chunks
           \<and> concat chunks = s
           \<and> (\<forall>c \<in> set chunks. int (length c) \<le> n)"
proof -
  have ov: "or_default (overlap strategy) 0 = 0"
    using assms(4) by (auto simp: or_default_def)
  have sz: "or_default (chunkSize strategy) 1000 = n"
    using assms(1,3) by (simp add: or_default_def)
  have "\<exists>chunks. fixedSizeChunking s n 0 = Some chunks \<and> concat chunks = s
          \<and> (\<forall>c \<in> set chunks. int (length c) \<le> n)"
  proof (cases "s = []")
    case True
    then show ?thesis
      unfolding fixedSizeChunking_def by (subst fixedSizeChunking_loop.simps) simp
  next
    case False
    then have "(0::int) < int (length s)" by simp
    from fixedSizeChunking_loop_no_overlap[OF assms(1) order_refl this, of "[]"]
    show ?thesis unfolding fixedSizeChunking_def by simp
  qed
  then show ?thesis
    by (auto simp: chunkString_def assms(2) ov sz)
qed

theorem fixedSizeChunking_no_overlap_partitions_witness:
  "chunkString ''abcde''
     \<lparr>chunking_method = FixedSize, chunkSize = Some 2, overlap = Some 0, separator = None,
      customChunker = None\<rparr> = Some (Inr [''ab'', ''cd'', ''e''])
   \<and> concat [''ab'', ''cd'', ''e''] = ''abcde''"
proof -
  let ?st = "\<lparr>chunking_method = FixedSize, chunkSize = Some 2, overlap = Some 0, separator = None,
      customChunker = None\<rparr>"
  from fixedSizeChunking_no_overlap_partitions[of 2 ?st "''abcde''"]
  obtain chunks where c: "chunkString ''abcde'' ?st = Some (Inr chunks)"
    "fixedSizeChunking ''abcde'' 2 0 = Some chunks" by auto
  have "fixedSizeChunking ''abcde'' 2 0 = Some [''ab'', ''cd'', ''e'']"
    by (simp add: fixedSizeChunking_def fixedSizeChunking_loop.simps js_slice_def Let_def)
  with c show ?thesis by auto
qed

section \<open>Agent data model\<close>

datatype TaskStatus = Pending | In_progress | Completed | Failed | Skipped

text \<open>
  A \<open>Task\<close>. Optional fields are options (\<open>None\<close> is an absent field). The fields
  \<open>subtasks\<close> and \<open>metadata\<close> are never read or written by the planner, the executor
  or the reflector and are left out.
\<close>

record Task =
  task_id :: string
  description :: string
  status :: TaskStatus
  tool :: "string option"
  args :: "(string \<times> json) list option"
  dependencies :: "string list option"
  result :: "json option"
  error :: "string option"
  startTime :: "int option"
  endTime :: "int option"
  retries :: "nat option"

datatype PlanStrategy = Sequential | Parallel | Mixed

datatype PlanStatus = Planning | Executing | PlanCompleted | PlanFailed

record TaskPlan =
  plan_id :: string
  originalRequest :: string
  tasks :: "Task list"
  strategy :: PlanStrategy
  createdAt :: int
  plan_status :: PlanStatus
  completedTasks :: nat
  totalTasks :: nat

section \<open>Validation utilities\<close>

definition isArray :: "json \<Rightarrow> bool" where
  "isArray v = (case v of JArr _ \<Rightarrow> True | _ \<Rightarrow> False)"










definition brace_span :: "string \<Rightarrow> string option" where
  "brace_span s =
     (let r = dropWhile (\<lambda>c. c \<noteq> CHR ''{'') s;
          m = rev (dropWhile (\<lambda>c. c \<noteq> CHR ''}'') (rev r))
      in if m = [] then None else Some m)"


section \<open>AgentPlanner\<close>

text \<open>
  The conversion of one validated task definition of the response into a \<open>Task\<close>;
  \<open>idx\<close> is its position. \<open>t.description || 'Unnamed task'\<close> replaces an empty
  description as well.
\<close>

fun decimal :: "nat \<Rightarrow> string" where
  "decimal n = (if n < 10 then [char_of (48 + n)] else decimal (n div 10) @ [char_of (48 + n mod 10)])"



definition determinePlanStrategy :: "Task list \<Rightarrow> PlanStrategy" where
  "determinePlanStrategy ts =
     (let hasDependencies =
            list_ex (\<lambda>t. case dependencies t of None \<Rightarrow> False | Some ds \<Rightarrow> length ds > 0) ts
      in if \<not> hasDependencies \<and> length ts > 1 then Parallel
         else if hasDependencies \<and> length ts > 3 then Mixed
         else Sequential)"





section \<open>AgentReflector\<close>

text \<open>
  A \<open>ReflectionResult\<close>. \<open>confidence\<close> is a JavaScript number, \<open>None\<close> being \<open>NaN\<close>;
  \<open>issues\<close> and \<open>suggestions\<close> are declared as string arrays but are filled unchecked
  from the parsed response, so they hold JSON values.
\<close>

record ReflectionResult =
  success :: bool
  confidence :: "real option"
  issues :: "json list"
  suggestions :: "json list"
  shouldRetry :: bool
  alternativeApproach :: "json option"

definition truthy :: "json \<Rightarrow> bool" where
  "truthy v =
     (case v of
        JNull \<Rightarrow> False
      | JBool b \<Rightarrow> b
      | JNum r \<Rightarrow> r \<noteq> 0
      | JStr x \<Rightarrow> x \<noteq> []
      | JArr _ \<Rightarrow> True
      | JObj _ \<Rightarrow> True)"

text \<open>
  \<open>ToNumber\<close>, the coercion \<open>Math.min\<close> applies to its argument: the identity on
  numbers, \<open>1\<close> on \<open>true\<close>; for strings, arrays and objects it is the host's, the
  parameter \<open>coerce\<close>.
\<close>

definition ToNumber :: "(json \<Rightarrow> real option) \<Rightarrow> json \<Rightarrow> real option" where
  "ToNumber coerce v =
     (case v of
        JNum r \<Rightarrow> Some r
      | JBool b \<Rightarrow> Some (if b then 1 else 0)
      | JNull \<Rightarrow> Some 0
      | _ \<Rightarrow> coerce v)"

text \<open>The reflector's own \<open>extractJSON\<close>: one pattern, and an error when it fails.\<close>

definition reflector_extractJSON :: "string \<Rightarrow> string + string" where
  "reflector_extractJSON response =
     (case brace_span response of
        None \<Rightarrow> Inl ''No JSON found in response''
      | Some m \<Rightarrow> Inr m)"

definition parseReflectionResponse ::
  "(string \<Rightarrow> json option) \<Rightarrow> (json \<Rightarrow> real option) \<Rightarrow> string \<Rightarrow> string + ReflectionResult" where
  "parseReflectionResponse parser coerce response =
     (case reflector_extractJSON response of
        Inl e \<Rightarrow> Inl e
      | Inr js \<Rightarrow>
          (case JSON_parse parser js of
             None \<Rightarrow> Inl ''SyntaxError''
           | Some JNull \<Rightarrow> Inl ''TypeError''
           | Some parsed \<Rightarrow>
               Inr \<lparr>success = (json_get parsed ''success'' = Some (JBool True)),
                    confidence =
                      map_option (\<lambda>r. max 0 (min 1 r))
                        (case json_get parsed ''confidence'' of
                           None \<Rightarrow> Some 0.5
                         | Some v \<Rightarrow> if truthy v then ToNumber coerce v else Some 0.5),
                    issues = (case json_get parsed ''issues'' of Some (JArr xs) \<Rightarrow> xs | _ \<Rightarrow> []),
                    suggestions =
                      (case json_get parsed ''suggestions'' of Some (JArr xs) \<Rightarrow> xs | _ \<Rightarrow> []),
                    shouldRetry = (json_get parsed ''shouldRetry'' = Some (JBool True)),
                    alternativeApproach =
                      (case json_get parsed ''alternativeApproach'' of
                         None \<Rightarrow> None
                       | Some v \<Rightarrow> if truthy v then Some v else None)\<rparr>))"

definition createFallbackReflection :: "Task \<Rightarrow> ReflectionResult" where
  "createFallbackReflection task =
     (if status task = Completed then
        \<lparr>success = True, confidence = Some 0.8, issues = [], suggestions = [],
         shouldRetry = False, alternativeApproach = None\<rparr>
      else if status task = Failed then
        \<lparr>success = False, confidence = Some 0,
         issues = [JStr (case error task of
                           None \<Rightarrow> ''Task failed''
                         | Some e \<Rightarrow> if e = [] then ''Task failed'' else e)],
         suggestions = [JStr ''Try a different approach'', JStr ''Check tool arguments''],
         shouldRetry = True, alternativeApproach = None\<rparr>
      else
        \<lparr>success = False, confidence = Some 0.5, issues = [JStr ''Task did not complete''],
         suggestions = [], shouldRetry = False, alternativeApproach = None\<rparr>)"

text \<open>
  \<open>analyzeResult\<close>. \<open>llm\<close> is the outcome of \<open>callLLM\<close> on the reflection prompt
  (\<open>Inl\<close> an error thrown by the backend, \<open>Inr\<close> its response); every error of the
  \<open>try\<close> block ends in the fallback.
\<close>

definition analyzeResult ::
  "(string \<Rightarrow> json option) \<Rightarrow> (json \<Rightarrow> real option) \<Rightarrow> string + string \<Rightarrow> Task \<Rightarrow> ReflectionResult" where
  "analyzeResult parser coerce llm task =
     (case llm of
        Inl e \<Rightarrow> createFallbackReflection task
      | Inr response \<Rightarrow>
          (case parseReflectionResponse parser coerce response of
             Inl e \<Rightarrow> createFallbackReflection task
           | Inr r \<Rightarrow> r))"

text \<open>The backend call throws: the backend itself, or the parsing of its response.\<close>

definition backend_throws ::
  "(string \<Rightarrow> json option) \<Rightarrow> (json \<Rightarrow> real option) \<Rightarrow> string + string \<Rightarrow> bool" where
  "backend_throws parser coerce llm =
     (case llm of
        Inl e \<Rightarrow> True
      | Inr response \<Rightarrow>
          (case parseReflectionResponse parser coerce response of Inl e \<Rightarrow> True | Inr r \<Rightarrow> False))"

text \<open>
  C9 as stated fails: a failed task whose stored error message is the empty string gets
  the issue \<open>Task failed\<close>, not its stored message.
\<close>

theorem analyzeResult_empty_error_counterexample:
  "issues (analyzeResult (\<lambda>s. None) (\<lambda>v. None) (Inl ''fetch failed'')
      \<lparr>task_id = ''task-0'', description = ''read'', status = Failed, tool = Some ''read_file'',
       args = Some [], dependencies = Some [], result = None, error = Some [],
       startTime = None, endTime = None, retries = Some 2\<rparr>)
   = [JStr ''Task failed'']
   \<and> [JStr ''Task failed''] \<noteq> [JStr []]"
  by (simp add: analyzeResult_def createFallbackReflection_def)

text \<open>
  C9, amended. For a failed task, whenever the backend call throws or its response
  cannot be parsed, \<open>analyzeResult\<close> returns the fallback: success false, confidence 0,
  retry suggested, and one issue, which is the stored error message when it is set and
  not empty and the text \<open>Task failed\<close> otherwise. The result does not depend on how the
  backend failed, so repeated invocations on the unchanged task return the same result.
\<close>

theorem analyzeResult_failed_fallback:
  assumes "status task = Failed"
    and "backend_throws parser coerce llm"
    and "backend_throws parser' coerce' llm'"
  shows "analyzeResult parser coerce llm task =
           \<lparr>success = False, confidence = Some 0,
            issues = [JStr (case error task of
                              None \<Rightarrow> ''Task failed''
                            | Some e \<Rightarrow> if e = [] then ''Task failed'' else e)],
            suggestions = [JStr ''Try a different approach'', JStr ''Check tool arguments''],
            shouldRetry = True, alternativeApproach = None\<rparr>
         \<and> analyzeResult parser' coerce' llm' task = analyzeResult parser coerce llm task"
proof -
  have "analyzeResult p c l task = createFallbackReflection task" if "backend_throws p c l" for p c l
    using that by (auto simp: analyzeResult_def backend_throws_def split: sum.splits)
  with assms show ?thesis
    by (simp add: createFallbackReflection_def)
qed

theorem analyzeResult_failed_fallback_witness:
  "analyzeResult (\<lambda>s. None) (\<lambda>v. None) (Inr ''I am not sure'')
      \<lparr>task_id = ''task-0'', description = ''read'', status = Failed, tool = Some ''read_file'',
       args = Some [], dependencies = Some [], result = None, error = Some ''ENOENT'',
       startTime = None, endTime = None, retries = Some 2\<rparr>
   = \<lparr>success = False, confidence = Some 0, issues = [JStr ''ENOENT''],
      suggestions = [JStr ''Try a different approach'', JStr ''Check tool arguments''],
      shouldRetry = True, alternativeApproach = None\<rparr>
   \<and> analyzeResult (\<lambda>s. None) (\<lambda>v. None) (Inl ''fetch failed'')
      \<lparr>task_id = ''task-0'', description = ''read'', status = Failed, tool = Some ''read_file'',
       args = Some [], dependencies = Some [], result = None, error = Some ''ENOENT'',
       startTime = None, endTime = None, retries = Some 2\<rparr>
   = analyzeResult (\<lambda>s. None) (\<lambda>v. None) (Inr ''I am not sure'')
      \<lparr>task_id = ''task-0'', description = ''read'', status = Failed, tool = Some ''read_file'',
       args = Some [], dependencies = Some [], result = None, error = Some ''ENOENT'',
       startTime = None, endTime = None, retries = Some 2\<rparr>"
proof -
  let ?t = "\<lparr>task_id = ''task-0'', description = ''read'', status = Failed, tool = Some ''read_file'',
       args = Some [], dependencies = Some [], result = None, error = Some ''ENOENT'',
       startTime = None, endTime = None, retries = Some 2\<rparr>"
  have a: "backend_throws (\<lambda>s. None) (\<lambda>v. None) (Inr ''I am not sure'')"
    by (simp add: backend_throws_def parseReflectionResponse_def reflector_extractJSON_def
        brace_span_def)
  have b: "backend_throws (\<lambda>s. None) (\<lambda>v. None) (Inl ''fetch failed'')"
    by (simp add: backend_throws_def)
  have c: "status ?t = Failed" by simp
  from analyzeResult_failed_fallback[OF c a b] show ?thesis by simp
qed

section \<open>Topological sort of a plan\<close>

text \<open>The dependencies a loop over \<open>task.dependencies\<close> runs through: none when the field is absent.\<close>

definition deps_of :: "Task \<Rightarrow> string list" where
  "deps_of t = (case dependencies t of None \<Rightarrow> [] | Some ds \<Rightarrow> ds)"

text \<open>
  The state of \<open>topologicalSort\<close>: the array \<open>sorted\<close> and the two sets of task
  identifiers. \<open>visit\<close> is the local closure, \<open>visit_deps\<close> its \<open>for\<close> loop over the
  dependencies of a task; \<open>Inl\<close> is the error \<open>visit\<close> throws.
\<close>

record sort_state =
  sorted_arr :: "Task list"
  visited :: "string set"
  visiting :: "string set"

function visit :: "Task list \<Rightarrow> Task \<Rightarrow> sort_state \<Rightarrow> string + sort_state"
  and visit_deps :: "Task list \<Rightarrow> string list \<Rightarrow> sort_state \<Rightarrow> string + sort_state"
where
  "visit ts task st =
     (if task_id task \<in> visited st then Inr st
      else if task_id task \<in> visiting st
        then Inl (''Circular dependency detected: '' @ task_id task)
      else
        (case visit_deps ts (deps_of task) (st\<lparr>visiting := insert (task_id task) (visiting st)\<rparr>) of
           Inl e \<Rightarrow> Inl e
         | Inr st' \<Rightarrow>
             Inr (st'\<lparr>visiting := visiting st' - {task_id task},
                       visited := insert (task_id task) (visited st'),
                       sorted_arr := sorted_arr st' @ [task]\<rparr>)))"
| "visit_deps ts [] st = Inr st"
| "visit_deps ts (depId # rest) st =
     (case find (\<lambda>t. task_id t = depId) ts of
        None \<Rightarrow> visit_deps ts rest st
      | Some depTask \<Rightarrow>
          (case visit ts depTask st of
             Inl e \<Rightarrow> Inl e
           | Inr st' \<Rightarrow> visit_deps ts rest st'))"
  by pat_completeness auto

text \<open>
  Termination: a call of \<open>visit\<close> that goes on marks an unmarked task, and a call that
  returns leaves every mark (visited or visiting) in place.
\<close>

lemma visit_keeps_marks:
  "visit_visit_deps_dom (Inl (ts, task, st)) \<Longrightarrow> visit ts task st = Inr st' \<Longrightarrow>
     visited st \<union> visiting st \<subseteq> visited st' \<union> visiting st'"
  "visit_visit_deps_dom (Inr (ts, ds, st)) \<Longrightarrow> visit_deps ts ds st = Inr st'' \<Longrightarrow>
     visited st \<union> visiting st \<subseteq> visited st'' \<union> visiting st''"
proof (induct arbitrary: st' and st'' rule: visit_visit_deps.pinduct)
  case (1 ts task st)
  then show ?case
    by (auto simp: visit.psimps split: if_splits sum.splits)
next
  case (2 ts st)
  then show ?case by (simp add: visit_deps.psimps)
next
  case (3 ts depId rest st)
  then show ?case
    by (auto simp: visit_deps.psimps split: option.splits sum.splits) blast+
qed

lemma card_unmarked_insert:
  assumes "x \<notin> V" "finite A"
  shows "card (A - insert x V) < card (insert x A - V)"
proof -
  have "A - insert x V \<subset> insert x A - V" using assms(1) by auto
  moreover have "finite (insert x A - V)" using assms(2) by simp
  ultimately show ?thesis by (rule psubset_card_mono[rotated])
qed

lemma card_unmarked_mono:
  assumes "V \<subseteq> V'" "finite A"
  shows "card (A - V') \<le> card (A - V)"
  using assms by (intro card_mono) auto

lemma find_task_id:
  "find (\<lambda>t. task_id t = depId) ts = Some x \<Longrightarrow> x \<in> set ts \<and> task_id x = depId"
  by (auto simp: find_Some_iff)

termination visit
proof (relation "inv_image (less_than <*lex*> less_than <*lex*> less_than)
     (\<lambda>x. case x of
        Inl (ts, task, st) \<Rightarrow>
          (card (insert (task_id task) (task_id ` set ts) - (visited st \<union> visiting st)), 0::nat, 0::nat)
      | Inr (ts, ds, st) \<Rightarrow>
          (card (task_id ` set ts - (visited st \<union> visiting st)), 1, length ds))", goal_cases)
  case 1
  show ?case by (intro wf_inv_image wf_lex_prod wf_less_than)
next
  case (2 ts task st)
  then have "task_id task \<notin> visited st \<union> visiting st" by simp
  from card_unmarked_insert[OF this, of "task_id ` set ts"]
  show ?case by simp
next
  case (3 ts depId rest st)
  show ?case by simp
next
  case (4 ts depId rest st x2)
  from find_task_id[OF 4] have "insert (task_id x2) (task_id ` set ts) = task_id ` set ts"
    by auto
  then show ?case by simp
next
  case (5 ts depId rest st x2 b)
  have "visited st \<union> visiting st \<subseteq> visited b \<union> visiting b"
    by (rule visit_keeps_marks(1)[OF 5(3) 5(2)])
  from card_unmarked_mono[OF this, of "task_id ` set ts"]
  show ?case by auto
qed

declare visit.simps [simp del]

text \<open>The loop \<open>for (const task of tasks) visit(task)\<close>.\<close>

fun visit_all :: "Task list \<Rightarrow> Task list \<Rightarrow> sort_state \<Rightarrow> string + sort_state" where
  "visit_all ts [] st = Inr st"
| "visit_all ts (task # rest) st =
     (case visit ts task st of
        Inl e \<Rightarrow> Inl e
      | Inr st' \<Rightarrow> visit_all ts rest st')"

definition topologicalSort :: "Task list \<Rightarrow> string + Task list" where
  "topologicalSort ts =
     (case visit_all ts ts \<lparr>sorted_arr = [], visited = {}, visiting = {}\<rparr> of
        Inl e \<Rightarrow> Inl e
      | Inr st \<Rightarrow> Inr (sorted_arr st))"

text \<open>\<open>optimizePlan\<close>: \<open>Inl\<close> is the error of \<open>topologicalSort\<close>, which it does not catch.\<close>

definition optimizePlan :: "TaskPlan \<Rightarrow> string + TaskPlan" where
  "optimizePlan plan =
     (case topologicalSort (tasks plan) of
        Inl e \<Rightarrow> Inl e
      | Inr s \<Rightarrow> Inr (plan\<lparr>tasks := s, strategy := determinePlanStrategy s\<rparr>))"

text \<open>
  The dependency graph of a task list, on task identifiers: an edge from a task to each
  of its dependencies that is the identifier of a task of the list.
\<close>

definition dep_edges :: "Task list \<Rightarrow> (string \<times> string) set" where
  "dep_edges ts = {(task_id a, d) | a d. a \<in> set ts \<and> d \<in> set (deps_of a) \<and> d \<in> task_id ` set ts}"

text \<open>
  The invariant of the sort. The tasks sorted so far are tasks of the list with distinct
  identifiers, \<open>visited\<close> holds exactly their identifiers, each of them comes after
  those of its dependencies that are tasks of the list, and no identifier is both
  visited and being visited.
\<close>

definition topo_ordered :: "Task list \<Rightarrow> Task list \<Rightarrow> bool" where
  "topo_ordered ts s =
     (\<forall>i < length s. \<forall>d \<in> set (deps_of (s ! i)). d \<in> task_id ` set ts \<longrightarrow> (\<exists>j < i. task_id (s ! j) = d))"

definition sort_inv :: "Task list \<Rightarrow> sort_state \<Rightarrow> bool" where
  "sort_inv ts st =
     (set (sorted_arr st) \<subseteq> set ts
      \<and> visited st = task_id ` set (sorted_arr st)
      \<and> distinct (map task_id (sorted_arr st))
      \<and> topo_ordered ts (sorted_arr st)
      \<and> visiting st \<inter> visited st = {})"

definition cycle_error :: "Task list \<Rightarrow> string \<Rightarrow> bool" where
  "cycle_error ts e = (\<exists>x. e = ''Circular dependency detected: '' @ x \<and> (x, x) \<in> (dep_edges ts)\<^sup>+)"

lemma dep_edgesI:
  "a \<in> set ts \<Longrightarrow> d \<in> set (deps_of a) \<Longrightarrow> d \<in> task_id ` set ts \<Longrightarrow> (task_id a, d) \<in> dep_edges ts"
  by (auto simp: dep_edges_def)

lemma topo_ordered_snoc:
  assumes "topo_ordered ts s"
    and "\<forall>d \<in> set (deps_of t). d \<in> task_id ` set ts \<longrightarrow> d \<in> task_id ` set s"
  shows "topo_ordered ts (s @ [t])"
  unfolding topo_ordered_def
proof (intro allI impI ballI)
  fix i d
  assume i: "i < length (s @ [t])" and d: "d \<in> set (deps_of ((s @ [t]) ! i))" "d \<in> task_id ` set ts"
  show "\<exists>j<i. task_id ((s @ [t]) ! j) = d"
  proof (cases "i < length s")
    case True
    with assms(1) d obtain j where "j < i" "task_id (s ! j) = d"
      by (auto simp: topo_ordered_def nth_append)
    with True show ?thesis by (auto simp: nth_append intro!: exI[of _ j])
  next
    case False
    with i have [simp]: "i = length s" by simp
    from d assms(2) have "d \<in> task_id ` set s" by simp
    then obtain j where "j < length s" "task_id (s ! j) = d"
      by (auto simp: in_set_conv_nth)
    then show ?thesis by (auto simp: nth_append intro!: exI[of _ j])
  qed
qed

lemma visit_correct:
  "sort_inv ts st \<Longrightarrow> task \<in> set ts \<Longrightarrow>
   (\<forall>v \<in> visiting st. (v, task_id task) \<in> (dep_edges ts)\<^sup>+) \<Longrightarrow>
     (case visit ts task st of
        Inl e \<Rightarrow> cycle_error ts e
      | Inr st' \<Rightarrow> sort_inv ts st' \<and> visiting st' = visiting st
                    \<and> task_id task \<in> visited st' \<and> visited st \<subseteq> visited st')"
  "sort_inv ts st \<Longrightarrow>
   (\<forall>v \<in> visiting st. \<forall>d \<in> set ds. d \<in> task_id ` set ts \<longrightarrow> (v, d) \<in> (dep_edges ts)\<^sup>+) \<Longrightarrow>
     (case visit_deps ts ds st of
        Inl e \<Rightarrow> cycle_error ts e
      | Inr st' \<Rightarrow> sort_inv ts st' \<and> visiting st' = visiting st \<and> visited st \<subseteq> visited st'
                    \<and> (\<forall>d \<in> set ds. d \<in> task_id ` set ts \<longrightarrow> d \<in> visited st'))"
proof (induction ts task st and ts ds st rule: visit_visit_deps.induct)
  case (1 ts task st)
  let ?id = "task_id task"
  show ?case
  proof (cases "?id \<in> visited st")
    case True
    with 1 show ?thesis by (simp add: visit.simps)
  next
    case nv: False
    show ?thesis
    proof (cases "?id \<in> visiting st")
      case True
      with 1(4) have "(?id, ?id) \<in> (dep_edges ts)\<^sup>+" by blast
      then have "cycle_error ts (''Circular dependency detected: '' @ ?id)"
        unfolding cycle_error_def by blast
      with nv True show ?thesis by (simp add: visit.simps)
    next
      case ng: False
      let ?st0 = "st\<lparr>visiting := insert ?id (visiting st)\<rparr>"
      have inv0: "sort_inv ts ?st0"
        using 1(2) nv by (auto simp: sort_inv_def)
      have pc0: "\<forall>v \<in> visiting ?st0. \<forall>d \<in> set (deps_of task). d \<in> task_id ` set ts
                    \<longrightarrow> (v, d) \<in> (dep_edges ts)\<^sup>+"
      proof (intro ballI impI)
        fix v d assume v: "v \<in> visiting ?st0" and d: "d \<in> set (deps_of task)" "d \<in> task_id ` set ts"
        have e: "(?id, d) \<in> dep_edges ts" using dep_edgesI[OF 1(3) d] .
        show "(v, d) \<in> (dep_edges ts)\<^sup>+"
        proof (cases "v = ?id")
          case True with e show ?thesis by auto
        next
          case False
          with v have "v \<in> visiting st" by simp
          with 1(4) have "(v, ?id) \<in> (dep_edges ts)\<^sup>+" by blast
          with e show ?thesis by (meson trancl.trancl_into_trancl)
        qed
      qed
      note IH = 1(1)[OF nv ng inv0 pc0]
      show ?thesis
      proof (cases "visit_deps ts (deps_of task) ?st0")
        case (Inl e)
        with IH nv ng show ?thesis by (simp add: visit.simps)
      next
        case (Inr st1)
        with IH have inv1: "sort_inv ts st1" and vg1: "visiting st1 = insert ?id (visiting st)"
          and vd1: "visited st \<subseteq> visited st1"
          and deps1: "\<forall>d \<in> set (deps_of task). d \<in> task_id ` set ts \<longrightarrow> d \<in> visited st1"
          by simp_all
        let ?st' = "st1\<lparr>visiting := visiting st1 - {?id}, visited := insert ?id (visited st1),
                         sorted_arr := sorted_arr st1 @ [task]\<rparr>"
        have res: "visit ts task st = Inr ?st'"
          using nv ng Inr by (simp add: visit.simps)
        have notin: "?id \<notin> visited st1"
          using inv1 vg1 by (auto simp: sort_inv_def)
        have topo: "topo_ordered ts (sorted_arr st1 @ [task])"
          using inv1 deps1 by (intro topo_ordered_snoc) (auto simp: sort_inv_def)
        have "sort_inv ts ?st'"
          using inv1 1(3) notin topo vg1 ng unfolding sort_inv_def by auto
        moreover have "visiting ?st' = visiting st" using vg1 ng by auto
        ultimately show ?thesis using res vd1 by auto
      qed
    qed
  qed
next
  case (2 ts st)
  then show ?case by simp
next
  case (3 ts depId rest st)
  show ?case
  proof (cases "find (\<lambda>t. task_id t = depId) ts")
    case None
    then have absent: "depId \<notin> task_id ` set ts"
      by (auto simp: find_None_iff)
    have "\<forall>v\<in>visiting st. \<forall>d\<in>set rest. d \<in> task_id ` set ts \<longrightarrow> (v, d) \<in> (dep_edges ts)\<^sup>+"
      using 3(5) by simp
    from 3(1)[OF None 3(4) this] None absent show ?thesis
      by (auto split: sum.splits)
  next
    case (Some depTask)
    from find_task_id[OF Some] have dt: "depTask \<in> set ts" "task_id depTask = depId" by auto
    have pc: "\<forall>v\<in>visiting st. (v, task_id depTask) \<in> (dep_edges ts)\<^sup>+"
      using 3(5) dt by auto
    note IH1 = 3(2)[OF Some 3(4) dt(1) pc]
    show ?thesis
    proof (cases "visit ts depTask st")
      case (Inl e)
      with IH1 Some show ?thesis by simp
    next
      case (Inr st1)
      with IH1 have inv1: "sort_inv ts st1" and vg1: "visiting st1 = visiting st"
        and in1: "depId \<in> visited st1" and vd1: "visited st \<subseteq> visited st1"
        using dt by simp_all
      have pc1: "\<forall>v\<in>visiting st1. \<forall>d\<in>set rest. d \<in> task_id ` set ts \<longrightarrow> (v, d) \<in> (dep_edges ts)\<^sup>+"
        using 3(5) vg1 by simp
      from 3(3)[OF Some Inr inv1 pc1] Some Inr vg1 in1 vd1 show ?thesis
        by (auto split: sum.splits)
    qed
  qed
qed


lemma visit_all_correct:
  "sort_inv ts st \<Longrightarrow> visiting st = {} \<Longrightarrow> set rest \<subseteq> set ts \<Longrightarrow>
     (case visit_all ts rest st of
        Inl e \<Rightarrow> cycle_error ts e
      | Inr st' \<Rightarrow> sort_inv ts st' \<and> visiting st' = {}
                    \<and> visited st \<union> task_id ` set rest \<subseteq> visited st')"
proof (induction rest arbitrary: st)
  case Nil
  then show ?case by simp
next
  case (Cons t rest)
  from visit_correct(1)[OF Cons.prems(1), of t] Cons.prems
  have v: "case visit ts t st of
        Inl e \<Rightarrow> cycle_error ts e
      | Inr st' \<Rightarrow> sort_inv ts st' \<and> visiting st' = visiting st
                    \<and> task_id t \<in> visited st' \<and> visited st \<subseteq> visited st'"
    by simp
  show ?case
  proof (cases "visit ts t st")
    case (Inl e)
    with v show ?thesis by simp
  next
    case (Inr st1)
    with v Cons.prems have "sort_inv ts st1" "visiting st1 = {}" "set rest \<subseteq> set ts"
      by simp_all
    from Cons.IH[OF this] v Inr show ?thesis
      by (auto split: sum.splits)
  qed
qed

lemma topologicalSort_correct:
  "(case topologicalSort ts of
      Inl e \<Rightarrow> cycle_error ts e
    | Inr s \<Rightarrow> set s \<subseteq> set ts \<and> task_id ` set s = task_id ` set ts
               \<and> distinct (map task_id s) \<and> topo_ordered ts s)"
proof -
  let ?st0 = "\<lparr>sorted_arr = [], visited = {}, visiting = {}\<rparr>"
  have "sort_inv ts ?st0" by (simp add: sort_inv_def topo_ordered_def)
  from visit_all_correct[OF this, of ts] show ?thesis
    by (auto simp: topologicalSort_def sort_inv_def split: sum.splits)
qed

lemma same_tasks:
  assumes "distinct (map task_id ts)" "set s \<subseteq> set ts" "task_id ` set s = task_id ` set ts"
    "distinct (map task_id s)"
  shows "mset s = mset ts"
proof -
  have inj: "inj_on task_id (set ts)" using assms(1) by (simp add: distinct_map)
  have "set ts \<subseteq> set s"
  proof
    fix t assume t: "t \<in> set ts"
    then have "task_id t \<in> task_id ` set s" using assms(3) by auto
    then obtain u where u: "u \<in> set s" "task_id u = task_id t" by auto
    with assms(2) t inj have "u = t" by (auto dest: inj_onD)
    with u show "t \<in> set s" by simp
  qed
  with assms(2) have "set s = set ts" by auto
  moreover have "distinct s" "distinct ts" using assms(1,4) by (auto simp: distinct_map)
  ultimately show ?thesis by (simp add: set_eq_iff_mset_eq_distinct)
qed

lemma id_index: "x \<in> task_id ` set s \<Longrightarrow> \<exists>k<length s. task_id (s ! k) = x"
  by (auto simp: in_set_conv_nth)

lemma id_index_unique:
  "distinct (map task_id s) \<Longrightarrow> i < length s \<Longrightarrow> j < length s \<Longrightarrow>
   task_id (s ! i) = task_id (s ! j) \<Longrightarrow> i = j"
  using nth_eq_iff_index_eq[of "map task_id s" i j] by simp

lemma dep_edges_dom:
  "(a, b) \<in> dep_edges ts \<Longrightarrow> a \<in> task_id ` set ts \<and> b \<in> task_id ` set ts"
  by (auto simp: dep_edges_def)

lemma dep_edge_before:
  assumes d: "distinct (map task_id ts)" and s: "set s \<subseteq> set ts"
    and ds: "distinct (map task_id s)" and t: "topo_ordered ts s"
    and e: "(a, b) \<in> dep_edges ts"
    and ij: "i < length s" "j < length s" "task_id (s ! i) = a" "task_id (s ! j) = b"
  shows "j < i"
proof -
  from e obtain t' where t': "t' \<in> set ts" "a = task_id t'" "b \<in> set (deps_of t')" "b \<in> task_id ` set ts"
    by (auto simp: dep_edges_def)
  have inj: "inj_on task_id (set ts)" using d by (simp add: distinct_map)
  have "s ! i \<in> set ts" using s ij(1) by (auto simp: subset_iff)
  with t' ij inj have "s ! i = t'" by (auto dest: inj_onD)
  with t t' ij obtain j' where j': "j' < i" "task_id (s ! j') = b"
    unfolding topo_ordered_def by blast
  then have "j' < length s" using ij(1) by simp
  from id_index_unique[OF ds this ij(2)] j' ij have "j' = j" by simp
  with j' show ?thesis by simp
qed

lemma deps_before:
  assumes d: "distinct (map task_id ts)" and s: "set s \<subseteq> set ts"
    and i: "task_id ` set s = task_id ` set ts" and ds: "distinct (map task_id s)"
    and t: "topo_ordered ts s"
    and r: "(a, b) \<in> (dep_edges ts)\<^sup>+"
  shows "\<forall>i j. i < length s \<longrightarrow> j < length s \<longrightarrow> task_id (s ! i) = a \<longrightarrow> task_id (s ! j) = b \<longrightarrow> j < i"
  using r
proof (induction rule: trancl.induct)
  case (r_into_trancl a b)
  then show ?case using dep_edge_before[OF d s ds t] by blast
next
  case (trancl_into_trancl a b c)
  from dep_edges_dom[OF trancl_into_trancl.hyps(2)] i have "b \<in> task_id ` set s" by simp
  from id_index[OF this] obtain k where k: "k < length s" "task_id (s ! k) = b" by blast
  show ?case
  proof (intro allI impI)
    fix i j assume ij: "i < length s" "j < length s" "task_id (s ! i) = a" "task_id (s ! j) = c"
    from trancl_into_trancl.IH ij k have "k < i" by blast
    moreover have "j < k"
      using dep_edge_before[OF d s ds t trancl_into_trancl.hyps(2) k(1) ij(2) k(2) ij(4)] .
    ultimately show "j < i" by simp
  qed
qed

lemma sorted_acyclic:
  assumes d: "distinct (map task_id ts)" and s: "set s \<subseteq> set ts"
    and i: "task_id ` set s = task_id ` set ts" and ds: "distinct (map task_id s)"
    and t: "topo_ordered ts s"
  shows "acyclic (dep_edges ts)"
  unfolding acyclic_def
proof (intro allI notI)
  fix x assume x: "(x, x) \<in> (dep_edges ts)\<^sup>+"
  from tranclD[OF x] obtain z where "(x, z) \<in> dep_edges ts" by blast
  from dep_edges_dom[OF this] i have "x \<in> task_id ` set s" by simp
  from id_index[OF this] obtain k where k: "k < length s" "task_id (s ! k) = x" by blast
  from deps_before[OF d s i ds t x] k show False by blast
qed

text \<open>
  C4. For a plan whose task identifiers are distinct (the data model's invariant) and
  whose dependency graph is acyclic, \<open>optimizePlan\<close> returns the plan with the same
  tasks, reordered so that every task comes after each of its transitive dependencies
  that is a task of the plan.
\<close>

theorem optimizePlan_topological_order:
  assumes "distinct (map task_id (tasks plan))"
    and "acyclic (dep_edges (tasks plan))"
  shows "\<exists>s. optimizePlan plan = Inr (plan\<lparr>tasks := s, strategy := determinePlanStrategy s\<rparr>)
           \<and> mset s = mset (tasks plan)
           \<and> (\<forall>i j. i < length s \<and> j < length s
                  \<and> (task_id (s ! i), task_id (s ! j)) \<in> (dep_edges (tasks plan))\<^sup>+ \<longrightarrow> j < i)"
proof (cases "topologicalSort (tasks plan)")
  case (Inl e)
  with topologicalSort_correct[of "tasks plan"] have "cycle_error (tasks plan) e" by simp
  with assms(2) show ?thesis by (auto simp: cycle_error_def acyclic_def)
next
  case (Inr s)
  with topologicalSort_correct[of "tasks plan"]
  have s: "set s \<subseteq> set (tasks plan)" "task_id ` set s = task_id ` set (tasks plan)"
    "distinct (map task_id s)" "topo_ordered (tasks plan) s"
    by simp_all
  have "optimizePlan plan = Inr (plan\<lparr>tasks := s, strategy := determinePlanStrategy s\<rparr>)"
    using Inr by (simp add: optimizePlan_def)
  moreover have "mset s = mset (tasks plan)"
    using same_tasks[OF assms(1) s(1,2,3)] .
  moreover have "\<forall>i j. i < length s \<and> j < length s
                  \<and> (task_id (s ! i), task_id (s ! j)) \<in> (dep_edges (tasks plan))\<^sup>+ \<longrightarrow> j < i"
    using deps_before[OF assms(1) s] by blast
  ultimately show ?thesis by blast
qed

definition example_task :: "string \<Rightarrow> string list \<Rightarrow> Task" where
  "example_task i ds =
     \<lparr>task_id = i, description = ''step'', status = Pending, tool = Some ''read_file'',
      args = Some [], dependencies = Some ds, result = None, error = None,
      startTime = None, endTime = None, retries = None\<rparr>"

definition example_plan :: "Task list \<Rightarrow> TaskPlan" where
  "example_plan ts =
     \<lparr>plan_id = ''plan'', originalRequest = ''request'', tasks = ts, strategy = Sequential,
      createdAt = 0, plan_status = Planning, completedTasks = 0, totalTasks = length ts\<rparr>"

theorem optimizePlan_topological_order_witness:
  "distinct (map task_id (tasks (example_plan [example_task ''b'' [''a''], example_task ''a'' []])))
   \<and> acyclic (dep_edges (tasks (example_plan [example_task ''b'' [''a''], example_task ''a'' []])))
   \<and> optimizePlan (example_plan [example_task ''b'' [''a''], example_task ''a'' []])
       = Inr ((example_plan [example_task ''b'' [''a''], example_task ''a'' []])
                \<lparr>tasks := [example_task ''a'' [], example_task ''b'' [''a'']],
                 strategy := Sequential\<rparr>)"
proof -
  let ?ts = "[example_task ''b'' [''a''], example_task ''a'' []]"
  have d: "distinct (map task_id (tasks (example_plan ?ts)))"
    by (simp add: example_plan_def example_task_def)
  have "acyclic (dep_edges ?ts)"
    by (rule acyclicI_order[where f = "\<lambda>x. if x = ''a'' then 0::nat else 1"])
       (auto simp: dep_edges_def deps_of_def example_task_def)
  then have a: "acyclic (dep_edges (tasks (example_plan ?ts)))"
    by (simp add: example_plan_def)
  from optimizePlan_topological_order[OF d a]
  obtain s where "optimizePlan (example_plan ?ts)
      = Inr ((example_plan ?ts)\<lparr>tasks := s, strategy := determinePlanStrategy s\<rparr>)"
    by blast
  moreover have "topologicalSort ?ts = Inr [example_task ''a'' [], example_task ''b'' [''a'']]"
    by (simp add: topologicalSort_def visit.simps deps_of_def example_task_def)
  ultimately show ?thesis using d a
    by (simp add: optimizePlan_def example_plan_def determinePlanStrategy_def example_task_def)
qed

text \<open>
  C5. For a plan whose task identifiers are distinct and whose dependency graph has a
  cycle, \<open>optimizePlan\<close> returns (the sort is a total function) and what it returns is
  the error \<open>Circular dependency detected\<close>, naming a task that lies on a cycle; no plan
  is returned.
\<close>

theorem optimizePlan_cycle_error:
  assumes "distinct (map task_id (tasks plan))"
    and "\<not> acyclic (dep_edges (tasks plan))"
  shows "\<exists>x. optimizePlan plan = Inl (''Circular dependency detected: '' @ x)
           \<and> (x, x) \<in> (dep_edges (tasks plan))\<^sup>+"
proof (cases "topologicalSort (tasks plan)")
  case (Inl e)
  with topologicalSort_correct[of "tasks plan"] have "cycle_error (tasks plan) e" by simp
  with Inl show ?thesis by (auto simp: cycle_error_def optimizePlan_def)
next
  case (Inr s)
  with topologicalSort_correct[of "tasks plan"]
  have s: "set s \<subseteq> set (tasks plan)" "task_id ` set s = task_id ` set (tasks plan)"
    "distinct (map task_id s)" "topo_ordered (tasks plan) s"
    by simp_all
  from sorted_acyclic[OF assms(1) s] assms(2) show ?thesis by simp
qed

theorem optimizePlan_cycle_error_witness:
  "distinct (map task_id (tasks (example_plan [example_task ''c'' [''d''], example_task ''d'' [''c'']])))
   \<and> \<not> acyclic (dep_edges (tasks (example_plan [example_task ''c'' [''d''], example_task ''d'' [''c'']])))
   \<and> optimizePlan (example_plan [example_task ''c'' [''d''], example_task ''d'' [''c'']])
       = Inl ''Circular dependency detected: c''"
proof -
  let ?ts = "[example_task ''c'' [''d''], example_task ''d'' [''c'']]"
  have d: "distinct (map task_id (tasks (example_plan ?ts)))"
    by (simp add: example_plan_def example_task_def)
  have "(task_id (example_task ''c'' [''d'']), ''d'') \<in> dep_edges ?ts"
    by (rule dep_edgesI) (simp_all add: deps_of_def example_task_def)
  moreover have "(task_id (example_task ''d'' [''c'']), ''c'') \<in> dep_edges ?ts"
    by (rule dep_edgesI) (simp_all add: deps_of_def example_task_def)
  ultimately have "(''c'', ''d'') \<in> dep_edges ?ts" "(''d'', ''c'') \<in> dep_edges ?ts"
    by (simp_all add: example_task_def)
  then have "(''c'', ''c'') \<in> (dep_edges ?ts)\<^sup>+"
    by (meson trancl.r_into_trancl trancl.trancl_into_trancl)
  then have a: "\<not> acyclic (dep_edges (tasks (example_plan ?ts)))"
    by (auto simp: acyclic_def example_plan_def)
  from optimizePlan_cycle_error[OF d a]
  obtain x where "optimizePlan (example_plan ?ts) = Inl (''Circular dependency detected: '' @ x)"
    by blast
  moreover have "topologicalSort ?ts = Inl ''Circular dependency detected: c''"
    by (simp add: topologicalSort_def visit.simps deps_of_def example_task_def)
  ultimately show ?thesis using d a
    by (simp add: optimizePlan_def example_plan_def)
qed

section \<open>ParallelExecutor\<close>

text \<open>
  The constructor: \<open>config?.maxParallelTasks || 5\<close> and \<open>config?.maxRetries || 2\<close>, so a
  configured \<open>0\<close> is replaced by the default as an absent value is.
\<close>

record ParallelExecutor =
  maxParallelTasks :: int
  maxRetries :: int

definition new_ParallelExecutor :: "int option \<Rightarrow> int option \<Rightarrow> ParallelExecutor" where
  "new_ParallelExecutor cfgParallel cfgRetries =
     \<lparr>maxParallelTasks = or_default cfgParallel 5, maxRetries = or_default cfgRetries 2\<rparr>"

text \<open>
  What a tool call throws: an \<open>Error\<close> with its message, or some other value, for which
  the executor records \<open>Unknown error\<close>.
\<close>

datatype thrown = Error string | NonError

definition message_of :: "thrown \<Rightarrow> string" where
  "message_of e = (case e of Error m \<Rightarrow> m | NonError \<Rightarrow> ''Unknown error'')"

text \<open>
  The state of one \<open>executePlan\<close>. \<open>task_store\<close> holds the task objects of the plan,
  which the executor mutates in place; a task object is named by its position, and
  \<open>failedTasks\<close> holds positions. \<open>results\<close> is the \<open>Map\<close> in insertion order;
  \<open>pending\<close> and \<open>inProgress\<close> are the two \<open>Set\<close>s of identifiers of \<open>executeMixed\<close>.
  \<open>running\<close> lists the task objects whose asynchronous call has been started and has
  not settled yet (the promises in flight).
\<close>

record exec_state =
  task_store :: "Task list"
  results :: "(string \<times> json) list"
  failedTasks :: "nat list"
  pending :: "string list"
  inProgress :: "string list"
  running :: "nat list"

definition results_has :: "(string \<times> json) list \<Rightarrow> string \<Rightarrow> bool" where
  "results_has rs k = (k \<in> fst ` set rs)"

definition areDependenciesMet :: "Task \<Rightarrow> (string \<times> json) list \<Rightarrow> bool" where
  "areDependenciesMet task rs =
     (case dependencies task of
        None \<Rightarrow> True
      | Some ds \<Rightarrow> if length ds = 0 then True else list_all (results_has rs) ds)"

text \<open>
  \<open>executeTask\<close> up to its first suspension: the task is marked \<open>in_progress\<close> and its
  retry counter initialised. The time stamps it writes are not modelled; nothing reads
  them. The observer callbacks are taken to be absent.
\<close>

definition begin_task :: "nat \<Rightarrow> exec_state \<Rightarrow> exec_state" where
  "begin_task i s =
     s\<lparr>task_store := (task_store s)[i := (task_store s ! i)
          \<lparr>status := In_progress,
           retries := Some (case retries (task_store s ! i) of None \<Rightarrow> 0 | Some r \<Rightarrow> r)\<rparr>],
       running := running s @ [i]\<rparr>"

text \<open>
  The attempts of \<open>executeTask\<close>. \<open>attempt r\<close> is the outcome of the try block when the
  retry counter is \<open>r\<close>; a failed attempt is repeated while the counter is below
  \<open>maxRetries\<close>. The result is the final outcome and the final counter.
\<close>

function attempt_loop :: "(nat \<Rightarrow> thrown + json) \<Rightarrow> int \<Rightarrow> nat \<Rightarrow> (thrown + json) \<times> nat" where
  "attempt_loop attempt maxR r =
     (case attempt r of
        Inr v \<Rightarrow> (Inr v, r)
      | Inl e \<Rightarrow> if int r < maxR then attempt_loop attempt maxR (Suc r) else (Inl e, r))"
  by pat_completeness auto
termination
  by (relation "measure (\<lambda>(attempt, maxR, r). nat (maxR - int r))") auto

text \<open>
  \<open>run task rs r\<close> is the environment: the outcome of resolving the arguments of \<open>task\<close>
  against the results \<open>rs\<close> and running its tool, on the attempt with counter \<open>r\<close>.
  A task with no tool (or an empty tool name) throws before the tool is reached.
\<close>

definition executeTask ::
  "(Task \<Rightarrow> (string \<times> json) list \<Rightarrow> nat \<Rightarrow> thrown + json) \<Rightarrow> int \<Rightarrow> Task \<Rightarrow> (string \<times> json) list
     \<Rightarrow> (thrown + json) \<times> nat" where
  "executeTask run maxR task rs =
     attempt_loop
       (\<lambda>r. if tool task = None \<or> tool task = Some [] then Inl (Error ''Task has no tool specified'')
            else run task rs r)
       maxR (case retries task of None \<Rightarrow> 0 | Some r \<Rightarrow> r)"

text \<open>
  The rest of the asynchronous callback of a task, run when its call settles: the result
  is recorded and the task marked \<open>completed\<close>, or the task is marked \<open>failed\<close> and pushed
  on \<open>failedTasks\<close>. \<open>settle_mixed\<close> adds the \<open>finally\<close> block of \<open>executeMixed\<close>.
\<close>

definition settle ::
  "(Task \<Rightarrow> (string \<times> json) list \<Rightarrow> nat \<Rightarrow> thrown + json) \<Rightarrow> int \<Rightarrow> nat \<Rightarrow> exec_state \<Rightarrow> exec_state" where
  "settle run maxR i s =
     (let task = task_store s ! i in
      case executeTask run maxR task (results s) of
        (Inr v, r) \<Rightarrow>
          s\<lparr>results := AList.update (task_id task) v (results s),
            task_store := (task_store s)[i := task\<lparr>status := Completed, result := Some v, retries := Some r\<rparr>],
            running := removeAll i (running s)\<rparr>
      | (Inl e, r) \<Rightarrow>
          s\<lparr>task_store := (task_store s)[i := task\<lparr>status := Failed, error := Some (message_of e), retries := Some r\<rparr>],
            failedTasks := failedTasks s @ [i],
            running := removeAll i (running s)\<rparr>)"

definition settle_mixed ::
  "(Task \<Rightarrow> (string \<times> json) list \<Rightarrow> nat \<Rightarrow> thrown + json) \<Rightarrow> int \<Rightarrow> nat \<Rightarrow> exec_state \<Rightarrow> exec_state" where
  "settle_mixed run maxR i s =
     (let s' = settle run maxR i s
      in s'\<lparr>inProgress := removeAll (task_id (task_store s ! i)) (inProgress s')\<rparr>)"

text \<open>The states after each of a sequence of calls settles, in order.\<close>

fun settle_seq :: "(nat \<Rightarrow> exec_state \<Rightarrow> exec_state) \<Rightarrow> nat list \<Rightarrow> exec_state \<Rightarrow> exec_state list" where
  "settle_seq f [] s = []"
| "settle_seq f (i # rest) s = f i s # settle_seq f rest (f i s)"

subsection \<open>Mixed mode\<close>

text \<open>The \<open>ready\<close> filter of one iteration, as positions of task objects.\<close>

definition ready_tasks :: "int \<Rightarrow> exec_state \<Rightarrow> nat list" where
  "ready_tasks limit s =
     filter (\<lambda>i. task_id (task_store s ! i) \<in> set (pending s)
                 \<and> areDependenciesMet (task_store s ! i) (results s)
                 \<and> int (length (inProgress s)) < limit)
            [0..<length (task_store s)]"

text \<open>The synchronous start of the callback of one ready task, and of all of them.\<close>

definition launch_one :: "nat \<Rightarrow> exec_state \<Rightarrow> exec_state" where
  "launch_one i s =
     begin_task i
       (s\<lparr>pending := removeAll (task_id (task_store s ! i)) (pending s),
          inProgress := (if task_id (task_store s ! i) \<in> set (inProgress s) then inProgress s
                         else inProgress s @ [task_id (task_store s ! i)])\<rparr>)"

definition launch :: "nat list \<Rightarrow> exec_state \<Rightarrow> exec_state" where
  "launch ready s = fold launch_one ready s"

text \<open>The deadlock branch: every task still pending is skipped.\<close>

definition skip_one :: "nat \<Rightarrow> exec_state \<Rightarrow> exec_state" where
  "skip_one i s =
     s\<lparr>task_store := (task_store s)[i := (task_store s ! i)
          \<lparr>status := Skipped, error := Some ''Unmet dependencies or deadlock''\<rparr>],
       failedTasks := failedTasks s @ [i],
       pending := removeAll (task_id (task_store s ! i)) (pending s)\<rparr>"

definition skip_remaining :: "exec_state \<Rightarrow> exec_state" where
  "skip_remaining s =
     fold skip_one
       (filter (\<lambda>i. task_id (task_store s ! i) \<in> set (pending s)) [0..<length (task_store s)]) s"

text \<open>
  The suspension of the loop. While it waits, calls in flight settle: those the
  scheduler \<open>sched\<close> of the environment names, in its order. \<open>Promise.race\<close> resumes the
  loop only once a call started in this iteration has settled, so one is added when the
  scheduler names none; in the polling branch the polls during which nothing settles
  change nothing and are skipped, that is, every call in flight is taken to return.
  When no call is in flight the loop waits for ever: \<open>None\<close>.
\<close>

definition settling :: "(exec_state \<Rightarrow> nat list) \<Rightarrow> nat list \<Rightarrow> exec_state \<Rightarrow> nat list" where
  "settling sched batch s =
     (let chosen = filter (\<lambda>i. i \<in> set (running s)) (remdups (sched s));
          live = filter (\<lambda>i. i \<in> set (running s)) batch
      in if live \<noteq> [] then (if \<exists>i \<in> set live. i \<in> set chosen then chosen else chosen @ [hd live])
         else if chosen \<noteq> [] then chosen
         else take 1 (running s))"

definition await_mixed ::
  "(Task \<Rightarrow> (string \<times> json) list \<Rightarrow> nat \<Rightarrow> thrown + json) \<Rightarrow> (exec_state \<Rightarrow> nat list) \<Rightarrow> int
     \<Rightarrow> nat list \<Rightarrow> exec_state \<Rightarrow> exec_state list option" where
  "await_mixed run sched maxR batch s =
     (if settling sched batch s = [] then None
      else Some (settle_seq (settle_mixed run maxR) (settling sched batch s) s))"

text \<open>
  The \<open>while\<close> loop of \<open>executeMixed\<close>, from the state \<open>s\<close> at the head of an iteration.
  The result lists the states the execution goes through from there: the state once the
  ready tasks have been started, then the state after each call that settles while the
  loop waits, and so on; in the deadlock branch, the state with the remaining tasks
  skipped.
\<close>

definition unlaunched :: "exec_state \<Rightarrow> nat set" where
  "unlaunched s = {i. i < length (task_store s) \<and> task_id (task_store s ! i) \<in> set (pending s)}"

lemma finite_unlaunched: "finite (unlaunched s)"
  by (simp add: unlaunched_def)

lemma nth_update_field:
  assumes "\<And>x. f (g x) = f x"
  shows "f (xs[i := g (xs ! i)] ! j) = f (xs ! j)"
proof (cases "i < length xs")
  case True
  show ?thesis by (cases "j = i") (simp_all add: True assms)
next
  case False
  then show ?thesis by (simp add: list_update_beyond)
qed

lemma launch_one_store:
  "length (task_store (launch_one i s)) = length (task_store s)"
  "task_id (task_store (launch_one i s) ! j) = task_id (task_store s ! j)"
  "dependencies (task_store (launch_one i s) ! j) = dependencies (task_store s ! j)"
  "pending (launch_one i s) = removeAll (task_id (task_store s ! i)) (pending s)"
  "running (launch_one i s) = running s @ [i]"
  "results (launch_one i s) = results s"
  "failedTasks (launch_one i s) = failedTasks s"
  by (simp_all add: launch_one_def begin_task_def
        nth_update_field[where f = task_id and g = "\<lambda>t. t\<lparr>status := a, retries := c\<rparr>" for a c]
        nth_update_field[where f = dependencies and g = "\<lambda>t. t\<lparr>status := a, retries := c\<rparr>" for a c])

lemma unlaunched_launch_one:
  "unlaunched (launch_one i s) \<subseteq> unlaunched s - {i}"
  by (auto simp: unlaunched_def launch_one_store)

lemma launch_store:
  "length (task_store (launch rs s)) = length (task_store s)"
  "task_id (task_store (launch rs s) ! j) = task_id (task_store s ! j)"
  "dependencies (task_store (launch rs s) ! j) = dependencies (task_store s ! j)"
  "running (launch rs s) = running s @ rs"
  "results (launch rs s) = results s"
  "failedTasks (launch rs s) = failedTasks s"
  unfolding launch_def
  by (induction rs arbitrary: s) (simp_all add: launch_one_store)

lemma unlaunched_launch: "unlaunched (launch rs s) \<subseteq> unlaunched s - set rs"
  unfolding launch_def
proof (induction rs arbitrary: s)
  case Nil
  then show ?case by simp
next
  case (Cons i rs)
  have "unlaunched (fold launch_one rs (launch_one i s)) \<subseteq> unlaunched (launch_one i s) - set rs"
    by (rule Cons.IH)
  also have "\<dots> \<subseteq> (unlaunched s - {i}) - set rs"
    using unlaunched_launch_one[of i s] by blast
  finally show ?case by auto
qed

lemma ready_tasks_unlaunched:
  "set (ready_tasks limit s) \<subseteq> unlaunched s" "distinct (ready_tasks limit s)"
  by (auto simp: ready_tasks_def unlaunched_def)

definition in_flight_measure :: "exec_state \<Rightarrow> nat" where
  "in_flight_measure s = card (unlaunched s) + length (running s)"

lemma measure_launch_ready:
  "in_flight_measure (launch (ready_tasks limit s) s) \<le> in_flight_measure s"
proof -
  let ?rs = "ready_tasks limit s"
  have "card (unlaunched (launch ?rs s)) \<le> card (unlaunched s - set ?rs)"
    by (intro card_mono unlaunched_launch) (simp add: finite_unlaunched)
  also have "\<dots> = card (unlaunched s) - length ?rs"
    using ready_tasks_unlaunched[of limit s]
    by (simp add: card_Diff_subset distinct_card)
  finally have "card (unlaunched (launch ?rs s)) + length ?rs \<le> card (unlaunched s)"
    using ready_tasks_unlaunched[of limit s] card_mono[OF finite_unlaunched, of "set ?rs" s]
    by (simp add: distinct_card)
  then show ?thesis
    by (simp add: in_flight_measure_def launch_store)
qed

lemma settle_store:
  "length (task_store (settle run maxR i s)) = length (task_store s)"
  "task_id (task_store (settle run maxR i s) ! j) = task_id (task_store s ! j)"
  "dependencies (task_store (settle run maxR i s) ! j) = dependencies (task_store s ! j)"
  "pending (settle run maxR i s) = pending s"
  "inProgress (settle run maxR i s) = inProgress s"
  "running (settle run maxR i s) = removeAll i (running s)"
proof -
  obtain out r where e: "executeTask run maxR (task_store s ! i) (results s) = (out, r)"
    by (cases "executeTask run maxR (task_store s ! i) (results s)")
  show "length (task_store (settle run maxR i s)) = length (task_store s)"
    "pending (settle run maxR i s) = pending s"
    "inProgress (settle run maxR i s) = inProgress s"
    "running (settle run maxR i s) = removeAll i (running s)"
    using e by (cases out; simp add: settle_def Let_def)+
  show "task_id (task_store (settle run maxR i s) ! j) = task_id (task_store s ! j)"
    using e
    by (cases out)
       (simp_all add: settle_def Let_def
          nth_update_field[where f = task_id and g = "\<lambda>t. t\<lparr>status := a, result := b, retries := c\<rparr>" for a b c]
          nth_update_field[where f = task_id and g = "\<lambda>t. t\<lparr>status := a, error := b, retries := c\<rparr>" for a b c])
  show "dependencies (task_store (settle run maxR i s) ! j) = dependencies (task_store s ! j)"
    using e
    by (cases out)
       (simp_all add: settle_def Let_def
          nth_update_field[where f = dependencies and g = "\<lambda>t. t\<lparr>status := a, result := b, retries := c\<rparr>" for a b c]
          nth_update_field[where f = dependencies and g = "\<lambda>t. t\<lparr>status := a, error := b, retries := c\<rparr>" for a b c])
qed

lemma settle_mixed_store:
  "length (task_store (settle_mixed run maxR i s)) = length (task_store s)"
  "task_id (task_store (settle_mixed run maxR i s) ! j) = task_id (task_store s ! j)"
  "dependencies (task_store (settle_mixed run maxR i s) ! j) = dependencies (task_store s ! j)"
  "pending (settle_mixed run maxR i s) = pending s"
  "running (settle_mixed run maxR i s) = removeAll i (running s)"
  by (simp_all add: settle_mixed_def Let_def settle_store)

lemma unlaunched_settle_mixed: "unlaunched (settle_mixed run maxR i s) = unlaunched s"
  by (simp add: unlaunched_def settle_mixed_store)

lemma measure_settle_mixed:
  "in_flight_measure (settle_mixed run maxR i s) \<le> in_flight_measure s"
  "i \<in> set (running s) \<Longrightarrow> in_flight_measure (settle_mixed run maxR i s) < in_flight_measure s"
proof -
  have "length (removeAll i (running s)) \<le> length (running s)"
    by (simp add: removeAll_filter_not_eq)
  then show "in_flight_measure (settle_mixed run maxR i s) \<le> in_flight_measure s"
    by (simp add: in_flight_measure_def unlaunched_settle_mixed settle_mixed_store)
  assume "i \<in> set (running s)"
  then have "length (removeAll i (running s)) < length (running s)"
    by (simp add: removeAll_filter_not_eq length_filter_less)
  then show "in_flight_measure (settle_mixed run maxR i s) < in_flight_measure s"
    by (simp add: in_flight_measure_def unlaunched_settle_mixed settle_mixed_store)
qed

lemma measure_settle_seq_le:
  "in_flight_measure (last (s # settle_seq (settle_mixed run maxR) picks s)) \<le> in_flight_measure s"
proof (induction picks arbitrary: s)
  case Nil
  then show ?case by simp
next
  case (Cons i picks)
  have "in_flight_measure (last (settle_mixed run maxR i s
            # settle_seq (settle_mixed run maxR) picks (settle_mixed run maxR i s)))
          \<le> in_flight_measure (settle_mixed run maxR i s)"
    by (rule Cons.IH)
  also have "\<dots> \<le> in_flight_measure s"
    by (rule measure_settle_mixed(1))
  finally show ?case by simp
qed

lemma measure_settle_seq:
  assumes "picks \<noteq> []" "hd picks \<in> set (running s)"
  shows "in_flight_measure (last (settle_seq (settle_mixed run maxR) picks s)) < in_flight_measure s"
proof -
  from assms(1) obtain i rest where p: "picks = i # rest" by (cases picks) auto
  have "in_flight_measure (last (settle_seq (settle_mixed run maxR) picks s))
          = in_flight_measure (last (settle_mixed run maxR i s
              # settle_seq (settle_mixed run maxR) rest (settle_mixed run maxR i s)))"
    by (simp add: p)
  also have "\<dots> \<le> in_flight_measure (settle_mixed run maxR i s)"
    by (rule measure_settle_seq_le)
  also have "\<dots> < in_flight_measure s"
    using assms(2) p by (intro measure_settle_mixed(2)) simp
  finally show ?thesis .
qed

lemma settling_running:
  "settling sched batch s \<noteq> [] \<Longrightarrow> hd (settling sched batch s) \<in> set (running s)"
proof -
  let ?chosen = "filter (\<lambda>i. i \<in> set (running s)) (remdups (sched s))"
  let ?live = "filter (\<lambda>i. i \<in> set (running s)) batch"
  assume ne: "settling sched batch s \<noteq> []"
  have c: "?chosen \<noteq> [] \<Longrightarrow> hd ?chosen \<in> set (running s)"
    using hd_in_set[of ?chosen] by auto
  have l: "?live \<noteq> [] \<Longrightarrow> hd ?live \<in> set (running s)"
    using hd_in_set[of ?live] by auto
  have t: "running s \<noteq> [] \<Longrightarrow> hd (take 1 (running s)) \<in> set (running s)"
    by (cases "running s") auto
  show ?thesis
    using ne c l t unfolding settling_def Let_def
    by (auto simp: hd_append split: if_splits)
qed

function executeMixed_loop ::
  "(Task \<Rightarrow> (string \<times> json) list \<Rightarrow> nat \<Rightarrow> thrown + json) \<Rightarrow> (exec_state \<Rightarrow> nat list) \<Rightarrow> int \<Rightarrow> int
     \<Rightarrow> exec_state \<Rightarrow> exec_state list option" where
  "executeMixed_loop run sched limit maxR s =
     (if \<not> (length (pending s) > 0 \<or> length (inProgress s) > 0) then Some []
      else if length (ready_tasks limit s) = 0 \<and> length (inProgress s) = 0
        then Some [skip_remaining s]
      else
        (case await_mixed run sched maxR (ready_tasks limit s) (launch (ready_tasks limit s) s) of
           None \<Rightarrow> None
         | Some settled \<Rightarrow>
             (case executeMixed_loop run sched limit maxR (last settled) of
                None \<Rightarrow> None
              | Some rest \<Rightarrow> Some (launch (ready_tasks limit s) s # settled @ rest))))"
  by pat_completeness auto
termination
proof (relation "measure (\<lambda>(run, sched, limit, maxR, s). in_flight_measure s)", goal_cases)
  case 1
  show ?case by simp
next
  case (2 run sched limit maxR s settled)
  let ?s1 = "launch (ready_tasks limit s) s"
  from 2(3) have ne: "settling sched (ready_tasks limit s) ?s1 \<noteq> []"
    and st: "settled = settle_seq (settle_mixed run maxR) (settling sched (ready_tasks limit s) ?s1) ?s1"
    by (auto simp: await_mixed_def split: if_splits)
  from measure_settle_seq[OF ne settling_running[OF ne], of run maxR]
  have "in_flight_measure (last settled) < in_flight_measure ?s1"
    by (simp add: st)
  with measure_launch_ready[of limit s] show ?case by simp
qed

declare executeMixed_loop.simps [simp del]

text \<open>\<open>executeMixed\<close>: the two sets are initialised and the loop entered.\<close>

definition initial_state :: "Task list \<Rightarrow> exec_state" where
  "initial_state ts =
     \<lparr>task_store = ts, results = [], failedTasks = [], pending = [], inProgress = [], running = []\<rparr>"

definition executeMixed ::
  "(Task \<Rightarrow> (string \<times> json) list \<Rightarrow> nat \<Rightarrow> thrown + json) \<Rightarrow> (exec_state \<Rightarrow> nat list) \<Rightarrow> int \<Rightarrow> int
     \<Rightarrow> exec_state \<Rightarrow> exec_state list option" where
  "executeMixed run sched limit maxR s =
     executeMixed_loop run sched limit maxR
       (s\<lparr>pending := remdups (map task_id (task_store s)), inProgress := []\<rparr>)"

subsection \<open>Parallel and sequential mode, and \<open>executePlan\<close>\<close>

text \<open>\<open>createBatches\<close>: the \<open>for\<close> loop over \<open>i\<close>, which never exits for a negative batch size.\<close>

partial_function (option) createBatches_loop ::
  "'a list \<Rightarrow> int \<Rightarrow> int \<Rightarrow> 'a list list \<Rightarrow> 'a list list option" where
  "createBatches_loop items batchSize i batches =
     (if i < int (length items)
      then createBatches_loop items batchSize (i + batchSize) (batches @ [js_slice items i (i + batchSize)])
      else Some batches)"

definition createBatches :: "'a list \<Rightarrow> int \<Rightarrow> 'a list list option" where
  "createBatches items batchSize = createBatches_loop items batchSize 0 []"

text \<open>
  The order in which the calls of a batch settle: those the scheduler names first, in its
  order, then the others. \<open>Promise.allSettled\<close> waits for all of them.
\<close>

definition settle_order :: "(exec_state \<Rightarrow> nat list) \<Rightarrow> nat list \<Rightarrow> exec_state \<Rightarrow> nat list" where
  "settle_order sched batch s =
     (let chosen = filter (\<lambda>i. i \<in> set batch) (remdups (sched s))
      in chosen @ filter (\<lambda>i. i \<notin> set chosen) batch)"

fun executeParallel_batches ::
  "(Task \<Rightarrow> (string \<times> json) list \<Rightarrow> nat \<Rightarrow> thrown + json) \<Rightarrow> (exec_state \<Rightarrow> nat list) \<Rightarrow> int
     \<Rightarrow> nat list list \<Rightarrow> exec_state \<Rightarrow> exec_state list" where
  "executeParallel_batches run sched maxR [] s = []"
| "executeParallel_batches run sched maxR (batch # rest) s =
     (let s1 = fold begin_task batch s;
          settled = settle_seq (settle run maxR) (settle_order sched batch s1) s1
      in s1 # settled @ executeParallel_batches run sched maxR rest (last (s1 # settled)))"

definition executeParallel ::
  "(Task \<Rightarrow> (string \<times> json) list \<Rightarrow> nat \<Rightarrow> thrown + json) \<Rightarrow> (exec_state \<Rightarrow> nat list) \<Rightarrow> int \<Rightarrow> int
     \<Rightarrow> exec_state \<Rightarrow> exec_state list option" where
  "executeParallel run sched limit maxR s =
     (case createBatches [0..<length (task_store s)] limit of
        None \<Rightarrow> None
      | Some batches \<Rightarrow> Some (executeParallel_batches run sched maxR batches s))"

text \<open>Sequential mode: one task after the other, stopping at the first that fails.\<close>

fun executeSequential_from ::
  "(Task \<Rightarrow> (string \<times> json) list \<Rightarrow> nat \<Rightarrow> thrown + json) \<Rightarrow> int \<Rightarrow> nat list \<Rightarrow> exec_state
     \<Rightarrow> exec_state list" where
  "executeSequential_from run maxR [] s = []"
| "executeSequential_from run maxR (i # rest) s =
     (let s1 = begin_task i s;
          s2 = settle run maxR i s1
      in s1 # s2 #
         (case fst (executeTask run maxR (task_store s1 ! i) (results s1)) of
            Inl e \<Rightarrow> []
          | Inr v \<Rightarrow> executeSequential_from run maxR rest s2))"

definition executeSequential ::
  "(Task \<Rightarrow> (string \<times> json) list \<Rightarrow> nat \<Rightarrow> thrown + json) \<Rightarrow> int \<Rightarrow> exec_state \<Rightarrow> exec_state list" where
  "executeSequential run maxR s = executeSequential_from run maxR [0..<length (task_store s)] s"

text \<open>
  \<open>executePlan\<close>. The result carries, besides what the method returns and the plan as it
  leaves it, the states the execution went through (\<open>trace\<close>, the initial state first).
  \<open>None\<close> is an execution that never returns.
\<close>

record exec_result =
  exec_success :: bool
  exec_results :: "(string \<times> json) list"
  exec_failedTasks :: "Task list"
  exec_plan :: TaskPlan
  trace :: "exec_state list"

definition executePlan ::
  "ParallelExecutor \<Rightarrow> (Task \<Rightarrow> (string \<times> json) list \<Rightarrow> nat \<Rightarrow> thrown + json) \<Rightarrow> (exec_state \<Rightarrow> nat list)
     \<Rightarrow> TaskPlan \<Rightarrow> exec_result option" where
  "executePlan ex run sched plan =
     (let s0 = initial_state (tasks plan) in
      case (if strategy plan = Sequential then Some (executeSequential run (maxRetries ex) s0)
            else if strategy plan = Parallel
              then executeParallel run sched (maxParallelTasks ex) (maxRetries ex) s0
            else executeMixed run sched (maxParallelTasks ex) (maxRetries ex) s0) of
        None \<Rightarrow> None
      | Some states \<Rightarrow>
          (let final = last (s0 # states) in
           Some \<lparr>exec_success = (length (failedTasks final) = 0),
                 exec_results = results final,
                 exec_failedTasks = map (\<lambda>i. task_store final ! i) (failedTasks final),
                 exec_plan = plan\<lparr>tasks := task_store final,
                                  plan_status := (if length (failedTasks final) = 0 then PlanCompleted
                                                  else PlanFailed),
                                  completedTasks := length (results final)\<rparr>,
                 trace = s0 # states\<rparr>))"

text \<open>The number of tasks in status \<open>in_progress\<close> in a state.\<close>

definition in_progress_count :: "exec_state \<Rightarrow> nat" where
  "in_progress_count s = length (filter (\<lambda>t. status t = In_progress) (task_store s))"

subsection \<open>The invariant of mixed mode\<close>

text \<open>
  \<open>ts0\<close> are the tasks as the plan holds them when \<open>executeMixed\<close> is entered. Every task
  object keeps its identifier and its dependencies, and is in one of three phases:
  waiting (untouched, its identifier in \<open>pending\<close>), in flight (started, its call not
  settled) or finished. A task in flight or finished has all its dependencies recorded
  in \<open>results\<close>.
\<close>

definition same_identity :: "Task list \<Rightarrow> exec_state \<Rightarrow> bool" where
  "same_identity ts0 s =
     (length (task_store s) = length ts0
      \<and> (\<forall>i < length ts0. task_id (task_store s ! i) = task_id (ts0 ! i)
                          \<and> dependencies (task_store s ! i) = dependencies (ts0 ! i)))"

definition waiting :: "Task list \<Rightarrow> exec_state \<Rightarrow> nat \<Rightarrow> bool" where
  "waiting ts0 s i =
     (task_id (ts0 ! i) \<in> set (pending s) \<and> i \<notin> set (running s) \<and> task_store s ! i = ts0 ! i)"

definition in_flight :: "Task list \<Rightarrow> exec_state \<Rightarrow> nat \<Rightarrow> bool" where
  "in_flight ts0 s i =
     (task_id (ts0 ! i) \<notin> set (pending s) \<and> i \<in> set (running s)
      \<and> task_id (ts0 ! i) \<in> set (inProgress s)
      \<and> status (task_store s ! i) = In_progress
      \<and> areDependenciesMet (ts0 ! i) (results s))"

definition finished :: "Task list \<Rightarrow> exec_state \<Rightarrow> nat \<Rightarrow> bool" where
  "finished ts0 s i =
     (task_id (ts0 ! i) \<notin> set (pending s) \<and> i \<notin> set (running s)
      \<and> task_id (ts0 ! i) \<notin> set (inProgress s)
      \<and> (status (task_store s ! i) = Completed \<or> status (task_store s ! i) = Failed)
      \<and> areDependenciesMet (ts0 ! i) (results s))"

definition mixed_inv :: "Task list \<Rightarrow> exec_state \<Rightarrow> bool" where
  "mixed_inv ts0 s =
     (same_identity ts0 s
      \<and> (\<forall>i < length ts0. waiting ts0 s i \<or> in_flight ts0 s i \<or> finished ts0 s i)
      \<and> set (running s) \<subseteq> {..<length ts0})"

lemma areDependenciesMet_cong:
  "dependencies t = dependencies t' \<Longrightarrow> areDependenciesMet t rs = areDependenciesMet t' rs"
  by (simp add: areDependenciesMet_def)

lemma areDependenciesMet_mono:
  "areDependenciesMet t rs \<Longrightarrow> fst ` set rs \<subseteq> fst ` set rs' \<Longrightarrow> areDependenciesMet t rs'"
  by (auto simp: areDependenciesMet_def results_has_def list_all_iff split: option.splits if_splits)

lemma areDependenciesMet_deps_of:
  "areDependenciesMet t rs = list_all (results_has rs) (deps_of t)"
  by (auto simp: areDependenciesMet_def deps_of_def split: option.splits)

lemma distinct_ids_neq:
  "distinct (map task_id ts0) \<Longrightarrow> i < length ts0 \<Longrightarrow> j < length ts0 \<Longrightarrow> i \<noteq> j \<Longrightarrow>
   task_id (ts0 ! i) \<noteq> task_id (ts0 ! j)"
  using nth_eq_iff_index_eq[of "map task_id ts0" i j] by simp

lemma launch_one_effect:
  "i < length (task_store s) \<Longrightarrow> j \<noteq> i \<Longrightarrow> task_store (launch_one i s) ! j = task_store s ! j"
  "i < length (task_store s) \<Longrightarrow> status (task_store (launch_one i s) ! i) = In_progress"
  "set (inProgress (launch_one i s)) = insert (task_id (task_store s ! i)) (set (inProgress s))"
  by (auto simp: launch_one_def begin_task_def)

lemma mixed_inv_launch_one:
  assumes d: "distinct (map task_id ts0)" and inv: "mixed_inv ts0 s"
    and i: "i < length ts0" "waiting ts0 s i" "areDependenciesMet (ts0 ! i) (results s)"
  shows "mixed_inv ts0 (launch_one i s)"
    and "\<And>j. j < length ts0 \<Longrightarrow> j \<noteq> i \<Longrightarrow> waiting ts0 s j \<Longrightarrow> waiting ts0 (launch_one i s) j"
proof -
  from inv have si: "same_identity ts0 s" by (simp add: mixed_inv_def)
  then have len: "length (task_store s) = length ts0" and idi: "task_id (task_store s ! i) = task_id (ts0 ! i)"
    using i(1) by (auto simp: same_identity_def)
  have neq: "\<And>j. j < length ts0 \<Longrightarrow> j \<noteq> i \<Longrightarrow> task_id (ts0 ! j) \<noteq> task_id (ts0 ! i)"
    using distinct_ids_neq[OF d _ i(1)] by blast
  show w: "\<And>j. j < length ts0 \<Longrightarrow> j \<noteq> i \<Longrightarrow> waiting ts0 s j \<Longrightarrow> waiting ts0 (launch_one i s) j"
    using neq len i(1)
    by (auto simp: waiting_def launch_one_store launch_one_effect idi)
  have si': "same_identity ts0 (launch_one i s)"
    using si by (simp add: same_identity_def launch_one_store)
  have ph: "waiting ts0 (launch_one i s) j \<or> in_flight ts0 (launch_one i s) j \<or> finished ts0 (launch_one i s) j"
    if j: "j < length ts0" for j
  proof (cases "j = i")
    case True
    have "in_flight ts0 (launch_one i s) i"
      using i len by (simp add: in_flight_def launch_one_store launch_one_effect idi)
    with True show ?thesis by simp
  next
    case False
    from inv j have "waiting ts0 s j \<or> in_flight ts0 s j \<or> finished ts0 s j"
      by (simp add: mixed_inv_def)
    then show ?thesis
    proof (elim disjE)
      assume "waiting ts0 s j"
      then show ?thesis using w[OF j False] by simp
    next
      assume "in_flight ts0 s j"
      then have "in_flight ts0 (launch_one i s) j"
        using False len i(1)
        by (auto simp: in_flight_def launch_one_store launch_one_effect)
      then show ?thesis by simp
    next
      assume "finished ts0 s j"
      then have "finished ts0 (launch_one i s) j"
        using False len i(1) neq[OF j False]
        by (auto simp: finished_def launch_one_store launch_one_effect idi)
      then show ?thesis by simp
    qed
  qed
  have "set (running (launch_one i s)) \<subseteq> {..<length ts0}"
    using inv i(1) by (auto simp: mixed_inv_def launch_one_store)
  with si' ph show "mixed_inv ts0 (launch_one i s)"
    by (simp add: mixed_inv_def)
qed

lemma mixed_inv_launch_list:
  assumes d: "distinct (map task_id ts0)"
  shows "mixed_inv ts0 s \<Longrightarrow> distinct rs \<Longrightarrow>
         (\<forall>i \<in> set rs. i < length ts0 \<and> waiting ts0 s i \<and> areDependenciesMet (ts0 ! i) (results s)) \<Longrightarrow>
         mixed_inv ts0 (fold launch_one rs s)"
proof (induction rs arbitrary: s)
  case Nil
  then show ?case by simp
next
  case (Cons i rs)
  have inv': "mixed_inv ts0 (launch_one i s)"
    using mixed_inv_launch_one(1)[OF d Cons.prems(1)] Cons.prems(3) by simp
  have "\<forall>j \<in> set rs. j < length ts0 \<and> waiting ts0 (launch_one i s) j
          \<and> areDependenciesMet (ts0 ! j) (results (launch_one i s))"
  proof
    fix j assume j: "j \<in> set rs"
    with Cons.prems have a: "j < length ts0" "waiting ts0 s j" "areDependenciesMet (ts0 ! j) (results s)"
      and ne: "j \<noteq> i" by auto
    from Cons.prems(3) have b: "i < length ts0" "waiting ts0 s i" "areDependenciesMet (ts0 ! i) (results s)"
      by auto
    from mixed_inv_launch_one(2)[OF d Cons.prems(1) b a(1) ne a(2)] a
    show "j < length ts0 \<and> waiting ts0 (launch_one i s) j
          \<and> areDependenciesMet (ts0 ! j) (results (launch_one i s))"
      by (simp add: launch_one_store)
  qed
  from Cons.IH[OF inv' _ this] Cons.prems(2) show ?case by simp
qed

lemma ready_tasks_waiting:
  assumes inv: "mixed_inv ts0 s" and i: "i \<in> set (ready_tasks limit s)"
  shows "i < length ts0 \<and> waiting ts0 s i \<and> areDependenciesMet (ts0 ! i) (results s)"
proof -
  from inv have si: "same_identity ts0 s" by (simp add: mixed_inv_def)
  from i si have lt: "i < length ts0" and p: "task_id (ts0 ! i) \<in> set (pending s)"
    and m: "areDependenciesMet (task_store s ! i) (results s)"
    by (auto simp: ready_tasks_def same_identity_def)
  from si lt have "dependencies (task_store s ! i) = dependencies (ts0 ! i)"
    by (simp add: same_identity_def)
  with m have m': "areDependenciesMet (ts0 ! i) (results s)"
    using areDependenciesMet_cong by blast
  from inv lt have "waiting ts0 s i \<or> in_flight ts0 s i \<or> finished ts0 s i"
    by (simp add: mixed_inv_def)
  with p have "waiting ts0 s i" by (auto simp: in_flight_def finished_def)
  with lt m' show ?thesis by simp
qed

lemma mixed_inv_launch:
  assumes "distinct (map task_id ts0)" "mixed_inv ts0 s"
  shows "mixed_inv ts0 (launch (ready_tasks limit s) s)"
  unfolding launch_def
  using mixed_inv_launch_list[OF assms(1) assms(2) ready_tasks_unlaunched(2)[of limit s]]
    ready_tasks_waiting[OF assms(2)]
  by blast

lemma settle_effect:
  "j \<noteq> i \<Longrightarrow> task_store (settle run maxR i s) ! j = task_store s ! j"
  "i < length (task_store s) \<Longrightarrow>
     status (task_store (settle run maxR i s) ! i) = Completed
     \<or> status (task_store (settle run maxR i s) ! i) = Failed"
  "fst ` set (results s) \<subseteq> fst ` set (results (settle run maxR i s))"
proof -
  obtain out r where e: "executeTask run maxR (task_store s ! i) (results s) = (out, r)"
    by (cases "executeTask run maxR (task_store s ! i) (results s)")
  show "j \<noteq> i \<Longrightarrow> task_store (settle run maxR i s) ! j = task_store s ! j"
    using e by (cases out) (simp_all add: settle_def Let_def)
  show "i < length (task_store s) \<Longrightarrow>
     status (task_store (settle run maxR i s) ! i) = Completed
     \<or> status (task_store (settle run maxR i s) ! i) = Failed"
    using e by (cases out) (simp_all add: settle_def Let_def)
  show "fst ` set (results s) \<subseteq> fst ` set (results (settle run maxR i s))"
    using e by (cases out) (auto simp: settle_def Let_def dom_update)
qed

lemma settle_mixed_effect:
  "j \<noteq> i \<Longrightarrow> task_store (settle_mixed run maxR i s) ! j = task_store s ! j"
  "i < length (task_store s) \<Longrightarrow>
     status (task_store (settle_mixed run maxR i s) ! i) = Completed
     \<or> status (task_store (settle_mixed run maxR i s) ! i) = Failed"
  "fst ` set (results s) \<subseteq> fst ` set (results (settle_mixed run maxR i s))"
  "inProgress (settle_mixed run maxR i s) = removeAll (task_id (task_store s ! i)) (inProgress s)"
  using settle_effect(2)[where i = i and s = s and run = run and maxR = maxR]
    settle_effect(3)[where i = i and s = s and run = run and maxR = maxR]
  by (simp_all add: settle_mixed_def Let_def settle_store settle_effect(1))

lemma mixed_inv_settle:
  assumes d: "distinct (map task_id ts0)" and inv: "mixed_inv ts0 s" and i: "i \<in> set (running s)"
  shows "mixed_inv ts0 (settle_mixed run maxR i s)"
proof -
  let ?s' = "settle_mixed run maxR i s"
  from inv have si: "same_identity ts0 s" and rn: "set (running s) \<subseteq> {..<length ts0}"
    by (simp_all add: mixed_inv_def)
  from rn i have lt: "i < length ts0" by auto
  from si lt have len: "length (task_store s) = length ts0"
    and idi: "task_id (task_store s ! i) = task_id (ts0 ! i)"
    by (auto simp: same_identity_def)
  from inv lt have "waiting ts0 s i \<or> in_flight ts0 s i \<or> finished ts0 s i"
    by (simp add: mixed_inv_def)
  with i have fl: "in_flight ts0 s i" by (auto simp: waiting_def finished_def)
  have neq: "\<And>j. j < length ts0 \<Longrightarrow> j \<noteq> i \<Longrightarrow> task_id (ts0 ! j) \<noteq> task_id (ts0 ! i)"
    using distinct_ids_neq[OF d _ lt] by blast
  have mono: "\<And>t. areDependenciesMet t (results s) \<Longrightarrow> areDependenciesMet t (results ?s')"
    using areDependenciesMet_mono settle_mixed_effect(3) by blast
  have si': "same_identity ts0 ?s'"
    using si by (simp add: same_identity_def settle_mixed_store)
  have ph: "waiting ts0 ?s' j \<or> in_flight ts0 ?s' j \<or> finished ts0 ?s' j"
    if j: "j < length ts0" for j
  proof (cases "j = i")
    case True
    have "finished ts0 ?s' i"
      using fl mono settle_mixed_effect(2)[of i s run maxR] lt len
      by (auto simp: finished_def in_flight_def settle_mixed_store settle_mixed_effect(4) idi)
    with True show ?thesis by simp
  next
    case False
    from inv j have "waiting ts0 s j \<or> in_flight ts0 s j \<or> finished ts0 s j"
      by (simp add: mixed_inv_def)
    then show ?thesis
    proof (elim disjE)
      assume "waiting ts0 s j"
      then have "waiting ts0 ?s' j"
        using False by (auto simp: waiting_def settle_mixed_store settle_mixed_effect(1))
      then show ?thesis by simp
    next
      assume "in_flight ts0 s j"
      then have "in_flight ts0 ?s' j"
        using False mono neq[OF j False]
        by (auto simp: in_flight_def settle_mixed_store settle_mixed_effect(1) settle_mixed_effect(4) idi)
      then show ?thesis by simp
    next
      assume "finished ts0 s j"
      then have "finished ts0 ?s' j"
        using False mono
        by (auto simp: finished_def settle_mixed_store settle_mixed_effect(1) settle_mixed_effect(4))
      then show ?thesis by simp
    qed
  qed
  have "set (running ?s') \<subseteq> {..<length ts0}"
    using rn by (auto simp: settle_mixed_store)
  with si' ph show ?thesis by (simp add: mixed_inv_def)
qed

lemma mixed_inv_settle_seq:
  assumes d: "distinct (map task_id ts0)"
  shows "mixed_inv ts0 s \<Longrightarrow> distinct picks \<Longrightarrow> set picks \<subseteq> set (running s) \<Longrightarrow>
         (\<forall>s' \<in> set (settle_seq (settle_mixed run maxR) picks s). mixed_inv ts0 s')"
proof (induction picks arbitrary: s)
  case Nil
  then show ?case by simp
next
  case (Cons i picks)
  have inv': "mixed_inv ts0 (settle_mixed run maxR i s)"
    using mixed_inv_settle[OF d Cons.prems(1)] Cons.prems(3) by simp
  have "set picks \<subseteq> set (running (settle_mixed run maxR i s))"
    using Cons.prems(2,3) by (auto simp: settle_mixed_store)
  from Cons.IH[OF inv' _ this] Cons.prems(2) inv' show ?case by simp
qed

lemma settling_props:
  "distinct (settling sched batch s)" "set (settling sched batch s) \<subseteq> set (running s)"
proof -
  let ?chosen = "filter (\<lambda>i. i \<in> set (running s)) (remdups (sched s))"
  let ?live = "filter (\<lambda>i. i \<in> set (running s)) batch"
  have l: "?live \<noteq> [] \<Longrightarrow> hd ?live \<in> set (running s)"
    using hd_in_set[of ?live] by auto
  have t: "set (take 1 (running s)) \<subseteq> set (running s)" "distinct (take 1 (running s))"
    by (cases "running s"; simp)+
  show "set (settling sched batch s) \<subseteq> set (running s)"
    using l t(1) unfolding settling_def Let_def by (auto split: if_splits)
  have h: "?live \<noteq> [] \<Longrightarrow> hd ?live \<in> set ?live"
    by (rule hd_in_set)
  show "distinct (settling sched batch s)"
    using h t(2) unfolding settling_def Let_def by (auto split: if_splits)
qed

text \<open>The deadlock branch.\<close>

lemma skip_one_effect:
  "length (task_store (skip_one i s)) = length (task_store s)"
  "j \<noteq> i \<Longrightarrow> task_store (skip_one i s) ! j = task_store s ! j"
  "i < length (task_store s) \<Longrightarrow>
     task_store (skip_one i s) ! i
       = (task_store s ! i)\<lparr>status := Skipped, error := Some ''Unmet dependencies or deadlock''\<rparr>"
  "failedTasks (skip_one i s) = failedTasks s @ [i]"
  "results (skip_one i s) = results s"
  "inProgress (skip_one i s) = inProgress s"
  "running (skip_one i s) = running s"
  "pending (skip_one i s) = removeAll (task_id (task_store s ! i)) (pending s)"
  by (simp_all add: skip_one_def)

lemma fold_skip_one:
  "distinct rs \<Longrightarrow> set rs \<subseteq> {..<length (task_store s)} \<Longrightarrow>
   length (task_store (fold skip_one rs s)) = length (task_store s)
   \<and> (\<forall>j. j \<notin> set rs \<longrightarrow> task_store (fold skip_one rs s) ! j = task_store s ! j)
   \<and> (\<forall>j \<in> set rs. task_store (fold skip_one rs s) ! j
          = (task_store s ! j)\<lparr>status := Skipped, error := Some ''Unmet dependencies or deadlock''\<rparr>)
   \<and> failedTasks (fold skip_one rs s) = failedTasks s @ rs
   \<and> results (fold skip_one rs s) = results s"
proof (induction rs arbitrary: s)
  case Nil
  then show ?case by simp
next
  case (Cons i rs)
  let ?s1 = "skip_one i s"
  have p: "distinct rs" "set rs \<subseteq> {..<length (task_store ?s1)}" "i \<notin> set rs" "i < length (task_store s)"
    using Cons.prems by (auto simp: skip_one_effect)
  note IH = Cons.IH[OF p(1,2)]
  show ?case
  proof (intro conjI allI impI ballI)
    show "length (task_store (fold skip_one (i # rs) s)) = length (task_store s)"
      using IH by (simp add: skip_one_effect)
    show "failedTasks (fold skip_one (i # rs) s) = failedTasks s @ i # rs"
      using IH by (simp add: skip_one_effect)
    show "results (fold skip_one (i # rs) s) = results s"
      using IH by (simp add: skip_one_effect)
  next
    fix j assume "j \<notin> set (i # rs)"
    then show "task_store (fold skip_one (i # rs) s) ! j = task_store s ! j"
      using IH by (simp add: skip_one_effect)
  next
    fix j assume j: "j \<in> set (i # rs)"
    show "task_store (fold skip_one (i # rs) s) ! j
          = (task_store s ! j)\<lparr>status := Skipped, error := Some ''Unmet dependencies or deadlock''\<rparr>"
    proof (cases "j = i")
      case True
      with p(3) IH have "task_store (fold skip_one (i # rs) s) ! j = task_store ?s1 ! i" by simp
      with True p(4) show ?thesis by (simp add: skip_one_effect)
    next
      case False
      with j have "j \<in> set rs" by simp
      with IH False show ?thesis by (simp add: skip_one_effect)
    qed
  qed
qed

text \<open>Every identifier in \<open>inProgress\<close> belongs to a call in flight.\<close>

definition calls_in_flight :: "Task list \<Rightarrow> exec_state \<Rightarrow> bool" where
  "calls_in_flight ts0 s = (set (inProgress s) \<subseteq> (\<lambda>i. task_id (ts0 ! i)) ` set (running s))"

lemma calls_in_flight_launch_one:
  assumes "same_identity ts0 s" "i < length ts0" "calls_in_flight ts0 s"
  shows "calls_in_flight ts0 (launch_one i s)"
proof -
  have "task_id (task_store s ! i) = task_id (ts0 ! i)"
    using assms(1,2) by (simp add: same_identity_def)
  then show ?thesis
    using assms(3) by (auto simp: calls_in_flight_def launch_one_store launch_one_effect)
qed

lemma same_identity_launch_one: "same_identity ts0 s \<Longrightarrow> same_identity ts0 (launch_one i s)"
  by (simp add: same_identity_def launch_one_store)

lemma calls_in_flight_launch:
  "same_identity ts0 s \<Longrightarrow> set rs \<subseteq> {..<length ts0} \<Longrightarrow> calls_in_flight ts0 s \<Longrightarrow>
   calls_in_flight ts0 (launch rs s)"
  unfolding launch_def
proof (induction rs arbitrary: s)
  case Nil
  then show ?case by simp
next
  case (Cons i rs)
  have "calls_in_flight ts0 (launch_one i s)"
    using calls_in_flight_launch_one[OF Cons.prems(1) _ Cons.prems(3)] Cons.prems(2) by simp
  from Cons.IH[OF same_identity_launch_one[OF Cons.prems(1)] _ this] Cons.prems(2)
  show ?case by simp
qed

lemma calls_in_flight_settle:
  assumes "same_identity ts0 s" "i < length ts0" "calls_in_flight ts0 s"
  shows "calls_in_flight ts0 (settle_mixed run maxR i s)"
proof -
  have idi: "task_id (task_store s ! i) = task_id (ts0 ! i)"
    using assms(1,2) by (simp add: same_identity_def)
  show ?thesis
    unfolding calls_in_flight_def
  proof
    fix x assume "x \<in> set (inProgress (settle_mixed run maxR i s))"
    then have x: "x \<in> set (inProgress s)" "x \<noteq> task_id (ts0 ! i)"
      by (auto simp: settle_mixed_effect(4) idi)
    with assms(3) obtain j where j: "j \<in> set (running s)" "x = task_id (ts0 ! j)"
      by (auto simp: calls_in_flight_def)
    with x have "j \<noteq> i" by auto
    with j show "x \<in> (\<lambda>i. task_id (ts0 ! i)) ` set (running (settle_mixed run maxR i s))"
      by (auto simp: settle_mixed_store)
  qed
qed

lemma calls_in_flight_settle_seq:
  "mixed_inv ts0 s \<Longrightarrow> calls_in_flight ts0 s \<Longrightarrow> distinct (map task_id ts0) \<Longrightarrow>
   distinct picks \<Longrightarrow> set picks \<subseteq> set (running s) \<Longrightarrow>
   (\<forall>s' \<in> set (settle_seq (settle_mixed run maxR) picks s). calls_in_flight ts0 s')"
proof (induction picks arbitrary: s)
  case Nil
  then show ?case by simp
next
  case (Cons i picks)
  from Cons.prems(1,5) have lt: "i < length ts0" and si: "same_identity ts0 s"
    by (auto simp: mixed_inv_def)
  have c: "calls_in_flight ts0 (settle_mixed run maxR i s)"
    by (rule calls_in_flight_settle[OF si lt Cons.prems(2)])
  have inv': "mixed_inv ts0 (settle_mixed run maxR i s)"
    using mixed_inv_settle[OF Cons.prems(3) Cons.prems(1)] Cons.prems(5) by simp
  have "set picks \<subseteq> set (running (settle_mixed run maxR i s))"
    using Cons.prems(4,5) by (auto simp: settle_mixed_store)
  from Cons.IH[OF inv' c Cons.prems(3) _ this] Cons.prems(4) c show ?case by simp
qed

text \<open>
  The state in which an execution ends: every task is completed or failed, with its
  dependencies recorded, or skipped with the deadlock message, pushed on \<open>failedTasks\<close>
  and (when the concurrency limit is positive) with a dependency that has no result.
\<close>

definition all_settled :: "int \<Rightarrow> Task list \<Rightarrow> exec_state \<Rightarrow> bool" where
  "all_settled limit ts0 s =
     (same_identity ts0 s
      \<and> (\<forall>i < length ts0.
            ((status (task_store s ! i) = Completed \<or> status (task_store s ! i) = Failed)
              \<and> areDependenciesMet (ts0 ! i) (results s))
          \<or> (status (task_store s ! i) = Skipped
              \<and> error (task_store s ! i) = Some ''Unmet dependencies or deadlock''
              \<and> i \<in> set (failedTasks s)
              \<and> (0 < limit \<longrightarrow> \<not> areDependenciesMet (ts0 ! i) (results s)))))"

lemma all_settled_at_exit:
  assumes "mixed_inv ts0 s" "pending s = []" "inProgress s = []"
  shows "all_settled limit ts0 s"
  using assms
  by (auto simp: all_settled_def mixed_inv_def waiting_def in_flight_def finished_def)

lemma all_settled_at_deadlock:
  assumes inv: "mixed_inv ts0 s" and r: "ready_tasks limit s = []" and p: "inProgress s = []"
  shows "all_settled limit ts0 (skip_remaining s)"
proof -
  let ?rs = "filter (\<lambda>i. task_id (task_store s ! i) \<in> set (pending s)) [0..<length (task_store s)]"
  from inv have si: "same_identity ts0 s" by (simp add: mixed_inv_def)
  then have len: "length (task_store s) = length ts0" by (simp add: same_identity_def)
  have "distinct ?rs" "set ?rs \<subseteq> {..<length (task_store s)}" by auto
  from fold_skip_one[OF this]
  have f: "length (task_store (skip_remaining s)) = length (task_store s)"
    "\<And>j. j \<notin> set ?rs \<Longrightarrow> task_store (skip_remaining s) ! j = task_store s ! j"
    "\<And>j. j \<in> set ?rs \<Longrightarrow> task_store (skip_remaining s) ! j
          = (task_store s ! j)\<lparr>status := Skipped, error := Some ''Unmet dependencies or deadlock''\<rparr>"
    "failedTasks (skip_remaining s) = failedTasks s @ ?rs"
    "results (skip_remaining s) = results s"
    unfolding skip_remaining_def by blast+
  have si': "same_identity ts0 (skip_remaining s)"
    unfolding same_identity_def
  proof (intro conjI allI impI)
    show "length (task_store (skip_remaining s)) = length ts0" using f(1) len by simp
  next
    fix i assume i: "i < length ts0"
    show "task_id (task_store (skip_remaining s) ! i) = task_id (ts0 ! i)"
      using si i f(2)[of i] f(3)[of i] by (cases "i \<in> set ?rs") (auto simp: same_identity_def)
    show "dependencies (task_store (skip_remaining s) ! i) = dependencies (ts0 ! i)"
      using si i f(2)[of i] f(3)[of i] by (cases "i \<in> set ?rs") (auto simp: same_identity_def)
  qed
  have ph: "((status (task_store (skip_remaining s) ! i) = Completed
              \<or> status (task_store (skip_remaining s) ! i) = Failed)
              \<and> areDependenciesMet (ts0 ! i) (results (skip_remaining s)))
          \<or> (status (task_store (skip_remaining s) ! i) = Skipped
              \<and> error (task_store (skip_remaining s) ! i) = Some ''Unmet dependencies or deadlock''
              \<and> i \<in> set (failedTasks (skip_remaining s))
              \<and> (0 < limit \<longrightarrow> \<not> areDependenciesMet (ts0 ! i) (results (skip_remaining s))))"
    if i: "i < length ts0" for i
  proof (cases "i \<in> set ?rs")
    case True
    from r i len have "i \<notin> set (ready_tasks limit s)" by simp
    with True i len p have "0 < limit \<longrightarrow> \<not> areDependenciesMet (task_store s ! i) (results s)"
      by (auto simp: ready_tasks_def)
    moreover have "dependencies (task_store s ! i) = dependencies (ts0 ! i)"
      using si i by (simp add: same_identity_def)
    ultimately have "0 < limit \<longrightarrow> \<not> areDependenciesMet (ts0 ! i) (results s)"
      using areDependenciesMet_cong by blast
    with True f(3)[OF True] f(4) f(5) show ?thesis by simp
  next
    case False
    with i len si have np: "task_id (ts0 ! i) \<notin> set (pending s)"
      by (auto simp: same_identity_def)
    from inv i have "waiting ts0 s i \<or> in_flight ts0 s i \<or> finished ts0 s i"
      by (simp add: mixed_inv_def)
    with np p have "finished ts0 s i" by (auto simp: waiting_def in_flight_def)
    with f(2)[OF False] f(5) show ?thesis by (simp add: finished_def)
  qed
  from si' ph show ?thesis by (simp add: all_settled_def)
qed

lemma settling_nonempty:
  assumes "running s \<noteq> []"
  shows "settling sched batch s \<noteq> []"
proof -
  let ?chosen = "filter (\<lambda>i. i \<in> set (running s)) (remdups (sched s))"
  let ?live = "filter (\<lambda>i. i \<in> set (running s)) batch"
  have t: "take 1 (running s) \<noteq> []" using assms by (cases "running s") auto
  show ?thesis
  proof (cases "?live \<noteq> []")
    case True
    show ?thesis
    proof (cases "\<exists>i \<in> set ?live. i \<in> set ?chosen")
      case ex: True
      then have "?chosen \<noteq> []" by fastforce
      with True ex show ?thesis unfolding settling_def Let_def by simp
    next
      case False
      with True show ?thesis unfolding settling_def Let_def by simp
    qed
  next
    case False
    with t show ?thesis unfolding settling_def Let_def by simp
  qed
qed

lemma executeMixed_loop_correct:
  "distinct (map task_id ts0) \<Longrightarrow> mixed_inv ts0 s \<Longrightarrow> calls_in_flight ts0 s \<Longrightarrow>
   \<exists>tr. executeMixed_loop run sched limit maxR s = Some tr
        \<and> (\<forall>s' \<in> set tr. mixed_inv ts0 s' \<or> all_settled limit ts0 s')
        \<and> all_settled limit ts0 (last (s # tr))"
proof (induction run sched limit maxR s rule: executeMixed_loop.induct)
  case (1 run sched limit maxR s)
  note d = "1.prems"(1) and inv = "1.prems"(2) and cf = "1.prems"(3)
  show ?case
  proof (cases "\<not> (length (pending s) > 0 \<or> length (inProgress s) > 0)")
    case True
    then have "executeMixed_loop run sched limit maxR s = Some []"
      by (subst executeMixed_loop.simps) simp
    moreover have "all_settled limit ts0 s"
      using all_settled_at_exit[OF inv] True by simp
    ultimately show ?thesis by simp
  next
    case nexit: False
    show ?thesis
    proof (cases "length (ready_tasks limit s) = 0 \<and> length (inProgress s) = 0")
      case True
      with nexit have "executeMixed_loop run sched limit maxR s = Some [skip_remaining s]"
        by (subst executeMixed_loop.simps) simp
      moreover have "all_settled limit ts0 (skip_remaining s)"
        using all_settled_at_deadlock[OF inv] True by simp
      ultimately show ?thesis by simp
    next
      case ndead: False
      let ?ready = "ready_tasks limit s"
      let ?s1 = "launch ?ready s"
      let ?picks = "settling sched ?ready ?s1"
      let ?settled = "settle_seq (settle_mixed run maxR) ?picks ?s1"
      have inv1: "mixed_inv ts0 ?s1" by (rule mixed_inv_launch[OF d inv])
      have rsub: "set ?ready \<subseteq> {..<length ts0}"
        using ready_tasks_waiting[OF inv] by auto
      from inv have si: "same_identity ts0 s" by (simp add: mixed_inv_def)
      have cf1: "calls_in_flight ts0 ?s1" by (rule calls_in_flight_launch[OF si rsub cf])
      have "running ?s1 \<noteq> []"
      proof (cases "?ready = []")
        case True
        with ndead have "inProgress s \<noteq> []" by simp
        with cf have "running s \<noteq> []" by (auto simp: calls_in_flight_def)
        then show ?thesis by (simp add: launch_store)
      next
        case False
        then show ?thesis by (simp add: launch_store)
      qed
      then have pne: "?picks \<noteq> []" by (rule settling_nonempty)
      then have sne: "?settled \<noteq> []" by (cases ?picks) auto
      have aw: "await_mixed run sched maxR ?ready ?s1 = Some ?settled"
        using pne by (simp add: await_mixed_def)
      have invs: "\<forall>s' \<in> set ?settled. mixed_inv ts0 s'"
        by (rule mixed_inv_settle_seq[OF d inv1 settling_props])
      have cfs: "\<forall>s' \<in> set ?settled. calls_in_flight ts0 s'"
        by (rule calls_in_flight_settle_seq[OF inv1 cf1 d settling_props])
      have lastin: "last ?settled \<in> set ?settled" using sne by simp
      from "1.IH"[OF nexit ndead aw d] invs cfs lastin
      obtain rest where rest: "executeMixed_loop run sched limit maxR (last ?settled) = Some rest"
        "\<forall>s' \<in> set rest. mixed_inv ts0 s' \<or> all_settled limit ts0 s'"
        "all_settled limit ts0 (last (last ?settled # rest))"
        by blast
      have c1: "(\<not> (length (pending s) > 0 \<or> length (inProgress s) > 0)) = False"
        using nexit by simp
      have c2: "(length (ready_tasks limit s) = 0 \<and> length (inProgress s) = 0) = False"
        using ndead by simp
      have "executeMixed_loop run sched limit maxR s = Some (?s1 # ?settled @ rest)"
        by (subst executeMixed_loop.simps)
           (simp only: c1 c2 if_False aw rest(1) option.case)
      moreover have "\<forall>s' \<in> set (?s1 # ?settled @ rest). mixed_inv ts0 s' \<or> all_settled limit ts0 s'"
        using inv1 invs rest(2) by auto
      moreover have "last (s # ?s1 # ?settled @ rest) = last (last ?settled # rest)"
        using sne by (cases rest) auto
      ultimately show ?thesis using rest(3) by auto
    qed
  qed
qed

lemma executeMixed_correct:
  assumes d: "distinct (map task_id ts)"
  shows "\<exists>tr. executeMixed run sched limit maxR (initial_state ts) = Some tr
        \<and> (\<forall>s' \<in> set tr. mixed_inv ts s' \<or> all_settled limit ts s')
        \<and> all_settled limit ts (last (initial_state ts # tr))"
proof -
  let ?s = "(initial_state ts)\<lparr>pending := remdups (map task_id ts), inProgress := []\<rparr>"
  have inv: "mixed_inv ts ?s"
    by (auto simp: mixed_inv_def same_identity_def waiting_def initial_state_def)
  have cf: "calls_in_flight ts ?s"
    by (simp add: calls_in_flight_def)
  from executeMixed_loop_correct[OF d inv cf, of run sched limit maxR]
  obtain tr where tr: "executeMixed_loop run sched limit maxR ?s = Some tr"
    "\<forall>s' \<in> set tr. mixed_inv ts s' \<or> all_settled limit ts s'"
    "all_settled limit ts (last (?s # tr))"
    by blast
  have "all_settled limit ts (last (initial_state ts # tr))"
  proof (cases tr)
    case Nil
    with tr(3) show ?thesis
      by (simp add: all_settled_def same_identity_def initial_state_def)
  next
    case (Cons a list)
    with tr(3) show ?thesis by simp
  qed
  with tr(1,2) show ?thesis
    by (auto simp: executeMixed_def initial_state_def)
qed

subsection \<open>Claims about the executor\<close>

text \<open>
  C1. The claim is that the number of tasks in status \<open>in_progress\<close> never exceeds
  \<open>maxParallelTasks\<close>. In mixed mode the test \<open>inProgress.size < maxParallelTasks\<close> is
  evaluated inside the \<open>ready\<close> filter, before any ready task is started, so all ready
  tasks are started together. With a limit of 2 and three independent tasks (and a
  fourth that depends on the first), three tasks are in progress after the first
  iteration. The list gives the number of tasks in progress in each state the execution
  goes through.
\<close>

theorem executeMixed_exceeds_maxParallelTasks:
  "maxParallelTasks (new_ParallelExecutor (Some 2) None) = 2
   \<and> map_option (\<lambda>r. map in_progress_count (trace r))
        (executePlan (new_ParallelExecutor (Some 2) None) (\<lambda>t rs r. Inr JNull) (\<lambda>s. [])
           ((example_plan [example_task ''task-0'' [], example_task ''task-1'' [],
                           example_task ''task-2'' [], example_task ''task-3'' [''task-0'']])
              \<lparr>strategy := Mixed\<rparr>))
       = Some [0, 3, 2, 2, 1, 2, 1, 1, 0]"
  by (simp add: executePlan_def executeMixed_def executeMixed_loop.simps example_plan_def
      example_task_def new_ParallelExecutor_def or_default_def initial_state_def ready_tasks_def
      areDependenciesMet_def results_has_def launch_def launch_one_def begin_task_def await_mixed_def
      settling_def settle_mixed_def settle_def executeTask_def attempt_loop.simps skip_remaining_def
      skip_one_def in_progress_count_def Let_def upt_rec)

text \<open>
  C2 as stated fails in parallel mode, which starts the tasks of a batch without looking
  at their dependencies: with tasks \<open>a\<close> (depending on \<open>b\<close>) and \<open>b\<close>, both are in
  progress in the second state, when the results map is still empty.
\<close>

theorem executeParallel_ignores_dependencies_counterexample:
  "deps_of (example_task ''a'' [''b'']) = [''b'']
   \<and> map_option (\<lambda>r. map (\<lambda>s. (map status (task_store s), map fst (results s))) (take 2 (trace r)))
        (executePlan (new_ParallelExecutor None None) (\<lambda>t rs r. Inr JNull) (\<lambda>s. [])
           ((example_plan [example_task ''a'' [''b''], example_task ''b'' []])
              \<lparr>strategy := Parallel\<rparr>))
       = Some [([Pending, Pending], []), ([In_progress, In_progress], [])]"
  by (simp add: executePlan_def executeParallel_def createBatches_def createBatches_loop.simps
      js_slice_def example_plan_def example_task_def new_ParallelExecutor_def or_default_def
      initial_state_def begin_task_def deps_of_def Let_def upt_rec)

text \<open>
  C2, amended to mixed mode. For a plan with distinct task identifiers whose tasks are
  all pending, a mixed execution returns, and in every state it goes through every task
  that has been started (in progress, completed or failed) has a recorded result for
  every identifier in its dependency list.
\<close>

theorem executeMixed_starts_after_dependencies:
  assumes "strategy plan = Mixed"
    and "distinct (map task_id (tasks plan))"
    and "\<forall>t \<in> set (tasks plan). status t = Pending"
  shows "\<exists>r. executePlan ex run sched plan = Some r
           \<and> (\<forall>s \<in> set (trace r). \<forall>t \<in> set (task_store s).
                 status t = In_progress \<or> status t = Completed \<or> status t = Failed
                 \<longrightarrow> list_all (results_has (results s)) (deps_of t))"
proof -
  let ?ts = "tasks plan"
  let ?limit = "maxParallelTasks ex"
  from executeMixed_correct[OF assms(2), of run sched ?limit "maxRetries ex"]
  obtain tr where tr: "executeMixed run sched ?limit (maxRetries ex) (initial_state ?ts) = Some tr"
    "\<forall>s' \<in> set tr. mixed_inv ?ts s' \<or> all_settled ?limit ?ts s'"
    by blast
  have ok: "list_all (results_has (results s)) (deps_of t)"
    if s: "mixed_inv ?ts s \<or> all_settled ?limit ?ts s" and t: "t \<in> set (task_store s)"
      and st: "status t = In_progress \<or> status t = Completed \<or> status t = Failed" for s t
  proof -
    from s have si: "same_identity ?ts s" by (auto simp: mixed_inv_def all_settled_def)
    from t obtain i where i: "i < length (task_store s)" "t = task_store s ! i"
      by (auto simp: in_set_conv_nth)
    with si have lt: "i < length ?ts" and dp: "dependencies t = dependencies (?ts ! i)"
      by (auto simp: same_identity_def)
    have "areDependenciesMet (?ts ! i) (results s)"
      using s
    proof
      assume "mixed_inv ?ts s"
      with lt have "waiting ?ts s i \<or> in_flight ?ts s i \<or> finished ?ts s i"
        by (simp add: mixed_inv_def)
      moreover have "\<not> waiting ?ts s i"
        using st i(2) assms(3) lt by (auto simp: waiting_def)
      ultimately show ?thesis by (auto simp: in_flight_def finished_def)
    next
      assume "all_settled ?limit ?ts s"
      with lt st i(2) show ?thesis by (auto simp: all_settled_def)
    qed
    with dp have "areDependenciesMet t (results s)"
      using areDependenciesMet_cong by blast
    then show ?thesis by (simp add: areDependenciesMet_deps_of)
  qed
  have init: "list_all (results_has (results (initial_state ?ts))) (deps_of t)"
    if "t \<in> set (task_store (initial_state ?ts))"
      "status t = In_progress \<or> status t = Completed \<or> status t = Failed" for t
    using that assms(3) by (auto simp: initial_state_def)
  let ?final = "last (initial_state ?ts # tr)"
  let ?r = "\<lparr>exec_success = (length (failedTasks ?final) = 0),
             exec_results = results ?final,
             exec_failedTasks = map (\<lambda>i. task_store ?final ! i) (failedTasks ?final),
             exec_plan = plan\<lparr>tasks := task_store ?final,
                              plan_status := (if length (failedTasks ?final) = 0 then PlanCompleted
                                              else PlanFailed),
                              completedTasks := length (results ?final)\<rparr>,
             trace = initial_state ?ts # tr\<rparr>"
  have "executePlan ex run sched plan = Some ?r"
    using assms(1) tr(1) by (simp add: executePlan_def Let_def)
  moreover have "\<forall>s \<in> set (trace ?r). \<forall>t \<in> set (task_store s).
                 status t = In_progress \<or> status t = Completed \<or> status t = Failed
                 \<longrightarrow> list_all (results_has (results s)) (deps_of t)"
    using ok tr(2) init by auto
  ultimately show ?thesis by blast
qed

text \<open>
  C7. For a plan with distinct task identifiers and a positive concurrency limit, a
  mixed execution returns (every call in flight being taken to return), and when it
  does every task whose dependencies all have a recorded result has been executed
  (completed or failed), while every other task is skipped with the message
  \<open>Unmet dependencies or deadlock\<close> and is among the failed tasks returned.
\<close>

theorem executeMixed_terminates_and_skips:
  assumes "strategy plan = Mixed"
    and "distinct (map task_id (tasks plan))"
    and "0 < maxParallelTasks ex"
  shows "\<exists>r. executePlan ex run sched plan = Some r
           \<and> length (tasks (exec_plan r)) = length (tasks plan)
           \<and> (\<forall>i < length (tasks plan).
                 task_id (tasks (exec_plan r) ! i) = task_id (tasks plan ! i)
                 \<and> (if areDependenciesMet (tasks plan ! i) (exec_results r)
                    then status (tasks (exec_plan r) ! i) = Completed
                         \<or> status (tasks (exec_plan r) ! i) = Failed
                    else status (tasks (exec_plan r) ! i) = Skipped
                         \<and> error (tasks (exec_plan r) ! i) = Some ''Unmet dependencies or deadlock''
                         \<and> tasks (exec_plan r) ! i \<in> set (exec_failedTasks r)))"
proof -
  let ?ts = "tasks plan"
  let ?limit = "maxParallelTasks ex"
  from executeMixed_correct[OF assms(2), of run sched ?limit "maxRetries ex"]
  obtain tr where tr: "executeMixed run sched ?limit (maxRetries ex) (initial_state ?ts) = Some tr"
    "all_settled ?limit ?ts (last (initial_state ?ts # tr))"
    by blast
  let ?final = "last (initial_state ?ts # tr)"
  let ?r = "\<lparr>exec_success = (length (failedTasks ?final) = 0),
             exec_results = results ?final,
             exec_failedTasks = map (\<lambda>i. task_store ?final ! i) (failedTasks ?final),
             exec_plan = plan\<lparr>tasks := task_store ?final,
                              plan_status := (if length (failedTasks ?final) = 0 then PlanCompleted
                                              else PlanFailed),
                              completedTasks := length (results ?final)\<rparr>,
             trace = initial_state ?ts # tr\<rparr>"
  have r: "executePlan ex run sched plan = Some ?r"
    using assms(1) tr(1) by (simp add: executePlan_def Let_def)
  from tr(2) have si: "same_identity ?ts ?final" by (simp add: all_settled_def)
  have len: "length (tasks (exec_plan ?r)) = length ?ts"
    using si by (simp add: same_identity_def)
  have each: "task_id (tasks (exec_plan ?r) ! i) = task_id (?ts ! i)
       \<and> (if areDependenciesMet (?ts ! i) (exec_results ?r)
          then status (tasks (exec_plan ?r) ! i) = Completed
               \<or> status (tasks (exec_plan ?r) ! i) = Failed
          else status (tasks (exec_plan ?r) ! i) = Skipped
               \<and> error (tasks (exec_plan ?r) ! i) = Some ''Unmet dependencies or deadlock''
               \<and> tasks (exec_plan ?r) ! i \<in> set (exec_failedTasks ?r))"
    if i: "i < length ?ts" for i
  proof -
    from si i have idi: "task_id (task_store ?final ! i) = task_id (?ts ! i)"
      by (simp add: same_identity_def)
    from tr(2) i assms(3) have
      "((status (task_store ?final ! i) = Completed \<or> status (task_store ?final ! i) = Failed)
          \<and> areDependenciesMet (?ts ! i) (results ?final))
       \<or> (status (task_store ?final ! i) = Skipped
          \<and> error (task_store ?final ! i) = Some ''Unmet dependencies or deadlock''
          \<and> i \<in> set (failedTasks ?final)
          \<and> \<not> areDependenciesMet (?ts ! i) (results ?final))"
      by (simp add: all_settled_def)
    then show ?thesis
      using idi by (elim disjE) (auto simp del: last.simps)
  qed
  from r len each show ?thesis by blast
qed

lemmas mixed_eval =
  executePlan_def executeMixed_def executeMixed_loop.simps example_plan_def
  example_task_def new_ParallelExecutor_def or_default_def initial_state_def ready_tasks_def
  areDependenciesMet_def results_has_def launch_def launch_one_def begin_task_def await_mixed_def
  settling_def settle_mixed_def settle_def executeTask_def attempt_loop.simps skip_remaining_def
  skip_one_def Let_def upt_rec

theorem executeMixed_starts_after_dependencies_witness:
  "strategy ((example_plan [example_task ''a'' [], example_task ''b'' [''a''],
                example_task ''c'' [''missing''], example_task ''d'' [''c'']])\<lparr>strategy := Mixed\<rparr>) = Mixed
   \<and> distinct (map task_id (tasks ((example_plan [example_task ''a'' [], example_task ''b'' [''a''],
                example_task ''c'' [''missing''], example_task ''d'' [''c'']])\<lparr>strategy := Mixed\<rparr>)))
   \<and> list_all (\<lambda>t. status t = Pending)
        (tasks ((example_plan [example_task ''a'' [], example_task ''b'' [''a''],
                example_task ''c'' [''missing''], example_task ''d'' [''c'']])\<lparr>strategy := Mixed\<rparr>))
   \<and> map_option (\<lambda>r. map (\<lambda>s. (map status (task_store s), map fst (results s))) (trace r))
        (executePlan (new_ParallelExecutor None None) (\<lambda>t rs r. Inr JNull) (\<lambda>s. [])
           ((example_plan [example_task ''a'' [], example_task ''b'' [''a''],
                example_task ''c'' [''missing''], example_task ''d'' [''c'']])\<lparr>strategy := Mixed\<rparr>))
       = Some [([Pending, Pending, Pending, Pending], []),
               ([In_progress, Pending, Pending, Pending], []),
               ([Completed, Pending, Pending, Pending], [''a'']),
               ([Completed, In_progress, Pending, Pending], [''a'']),
               ([Completed, Completed, Pending, Pending], [''a'', ''b'']),
               ([Completed, Completed, Skipped, Skipped], [''a'', ''b''])]"
proof -
  let ?plan = "(example_plan [example_task ''a'' [], example_task ''b'' [''a''],
                example_task ''c'' [''missing''], example_task ''d'' [''c'']])\<lparr>strategy := Mixed\<rparr>"
  have h1: "strategy ?plan = Mixed" by simp
  have h2: "distinct (map task_id (tasks ?plan))"
    by (simp add: example_plan_def example_task_def)
  have h3: "\<forall>t \<in> set (tasks ?plan). status t = Pending"
    by (simp add: example_plan_def example_task_def)
  from executeMixed_starts_after_dependencies[OF h1 h2 h3,
      of "new_ParallelExecutor None None" "\<lambda>t rs r. Inr JNull" "\<lambda>s. []"]
  obtain r where r: "executePlan (new_ParallelExecutor None None) (\<lambda>t rs r. Inr JNull) (\<lambda>s. []) ?plan = Some r"
    by blast
  have e: "map_option (\<lambda>r. map (\<lambda>s. (map status (task_store s), map fst (results s))) (trace r))
        (executePlan (new_ParallelExecutor None None) (\<lambda>t rs r. Inr JNull) (\<lambda>s. []) ?plan)
       = Some [([Pending, Pending, Pending, Pending], []),
               ([In_progress, Pending, Pending, Pending], []),
               ([Completed, Pending, Pending, Pending], [''a'']),
               ([Completed, In_progress, Pending, Pending], [''a'']),
               ([Completed, Completed, Pending, Pending], [''a'', ''b'']),
               ([Completed, Completed, Skipped, Skipped], [''a'', ''b''])]"
    by (simp add: mixed_eval)
  from r h1 h2 h3 e show ?thesis
    by (simp add: list_all_iff)
qed

theorem executeMixed_terminates_and_skips_witness:
  "strategy ((example_plan [example_task ''a'' [], example_task ''b'' [''a''],
                example_task ''c'' [''a'', ''b''], example_task ''d'' [''c'']])\<lparr>strategy := Mixed\<rparr>) = Mixed
   \<and> distinct (map task_id (tasks ((example_plan [example_task ''a'' [], example_task ''b'' [''a''],
                example_task ''c'' [''a'', ''b''], example_task ''d'' [''c'']])\<lparr>strategy := Mixed\<rparr>)))
   \<and> 0 < maxParallelTasks (new_ParallelExecutor None None)
   \<and> map_option (\<lambda>r. (map status (tasks (exec_plan r)), map error (tasks (exec_plan r)),
                        map fst (exec_results r), map task_id (exec_failedTasks r), exec_success r))
        (executePlan (new_ParallelExecutor None None)
           (\<lambda>t rs r. if task_id t = ''b'' then Inl (Error ''ENOENT'') else Inr JNull) (\<lambda>s. [])
           ((example_plan [example_task ''a'' [], example_task ''b'' [''a''],
                example_task ''c'' [''a'', ''b''], example_task ''d'' [''c'']])\<lparr>strategy := Mixed\<rparr>))
       = Some ([Completed, Failed, Skipped, Skipped],
               [None, Some ''ENOENT'', Some ''Unmet dependencies or deadlock'',
                Some ''Unmet dependencies or deadlock''],
               [''a''], [''b'', ''c'', ''d''], False)"
proof -
  let ?plan = "(example_plan [example_task ''a'' [], example_task ''b'' [''a''],
                example_task ''c'' [''a'', ''b''], example_task ''d'' [''c'']])\<lparr>strategy := Mixed\<rparr>"
  let ?run = "\<lambda>(t::Task) (rs::(string \<times> json) list) (r::nat).
                if task_id t = ''b'' then Inl (Error ''ENOENT'') else Inr JNull"
  have h1: "strategy ?plan = Mixed" by simp
  have h2: "distinct (map task_id (tasks ?plan))"
    by (simp add: example_plan_def example_task_def)
  have h3: "0 < maxParallelTasks (new_ParallelExecutor None None)"
    by (simp add: new_ParallelExecutor_def or_default_def)
  from executeMixed_terminates_and_skips[OF h1 h2 h3, of ?run "\<lambda>s. []"]
  obtain r where r: "executePlan (new_ParallelExecutor None None) ?run (\<lambda>s. []) ?plan = Some r"
    by blast
  have e: "map_option (\<lambda>r. (map status (tasks (exec_plan r)), map error (tasks (exec_plan r)),
                        map fst (exec_results r), map task_id (exec_failedTasks r), exec_success r))
        (executePlan (new_ParallelExecutor None None) ?run (\<lambda>s. []) ?plan)
       = Some ([Completed, Failed, Skipped, Skipped],
               [None, Some ''ENOENT'', Some ''Unmet dependencies or deadlock'',
                Some ''Unmet dependencies or deadlock''],
               [''a''], [''b'', ''c'', ''d''], False)"
    by (simp add: mixed_eval message_of_def)
  from r h1 h2 h3 e show ?thesis by simp
qed

section \<open>RLMExecutor\<close>

text \<open>
  The constructor keeps \<open>config.maxRecursionDepth || 10\<close> and
  \<open>config.maxExecutionTime || 300000\<close>: a configured \<open>0\<close> is replaced by the default. The
  provider, the key and the model name only select the backend and are left to the
  environment.
\<close>

record RLMExecutor =
  maxRecursionDepth :: int
  maxExecutionTime :: int

definition new_RLMExecutor :: "int option \<Rightarrow> int option \<Rightarrow> RLMExecutor" where
  "new_RLMExecutor cfgDepth cfgTime =
     \<lparr>maxRecursionDepth = or_default cfgDepth 10, maxExecutionTime = or_default cfgTime 300000\<rparr>"

datatype ProcessingStrategy = MapReduce | RecursiveDecomposition | SequentialProcessing | TreeTraversal

record RLMContext =
  variables :: "(string \<times> json) list"
  currentDepth :: int
  callStack :: "string list"

datatype CallStatus = CallPending | CallRunning | CallCompleted | CallFailed

record RLMCall =
  call_id :: string
  call_prompt :: string
  call_context :: "(string \<times> json) list"
  call_depth :: int
  call_parentId :: "string option"
  call_status :: CallStatus
  call_result :: "string option"
  call_error :: "string option"
  call_startTime :: "int option"
  call_endTime :: "int option"

text \<open>\<open>maxDepth\<close> is \<open>Math.max\<close> of the depths: \<open>None\<close> is \<open>-Infinity\<close>, for no call.\<close>

record RLMTrajectory =
  traj_id :: string
  rootCall :: "RLMCall option"
  allCalls :: "RLMCall list"
  totalCalls :: nat
  maxDepth :: "int option"
  totalTokens :: nat
  traj_executionTime :: int

record RLMExecutionResult =
  rlm_success :: bool
  rlm_result :: "json option"
  rlm_trajectory :: RLMTrajectory
  rlm_error :: "string option"
  rlm_executionTime :: int

text \<open>
  The environment of an execution. \<open>stringify\<close> is \<open>JSON.stringify(v)\<close> and \<open>pretty\<close> is
  \<open>JSON.stringify(v, null, 2)\<close>; \<open>parser\<close> is the host's \<open>JSON.parse\<close> (see \<open>JSON_parse\<close>);
  \<open>to_text\<close> and \<open>to_key\<close> are the host's coercions of a value to a string and to a
  property key. \<open>backend n p\<close> is the outcome of the provider on the full prompt \<open>p\<close> of the
  \<open>n\<close>-th call of the trajectory. \<open>clock n\<close> is what the \<open>n\<close>-th evaluation of \<open>Date.now()\<close>
  returns, \<open>fresh n\<close> the identifier \<open>nanoid()\<close> returns when \<open>n\<close> calls have been recorded,
  and \<open>order\<close> names the order in which concurrent calls settle.
\<close>

record rlm_env =
  stringify :: "json \<Rightarrow> string"
  pretty :: "json \<Rightarrow> string"
  parser :: "string \<Rightarrow> json option"
  to_text :: "json option \<Rightarrow> string"
  to_key :: "json \<Rightarrow> string"
  backend :: "nat \<Rightarrow> string \<Rightarrow> thrown + string"
  clock :: "nat \<Rightarrow> int"
  fresh :: "nat \<Rightarrow> string"
  order :: "nat list \<Rightarrow> nat list"

text \<open>The mutable fields of the executor, and the number of clock readings made so far.\<close>

record rlm_state =
  trajectory :: "RLMCall list"
  rlm_startTime :: int
  reads :: nat

definition now :: "rlm_env \<Rightarrow> rlm_state \<Rightarrow> int \<times> rlm_state" where
  "now env st = (clock env (reads st), st\<lparr>reads := Suc (reads st)\<rparr>)"

definition show_int :: "int \<Rightarrow> string" where
  "show_int i = (if i < 0 then ''-'' @ decimal (nat (- i)) else decimal (nat i))"

subsection \<open>Helpers\<close>

definition getSize :: "rlm_env \<Rightarrow> json \<Rightarrow> int" where
  "getSize env v =
     (case v of
        JStr x \<Rightarrow> int (length x)
      | JArr xs \<Rightarrow> int (length xs) * 100
      | _ \<Rightarrow> int (length (stringify env v)))"

text \<open>The loop of \<open>findLargestVariable\<close>, with \<open>largest\<close> and \<open>largestSize\<close> as its state.\<close>

fun findLargest_loop ::
  "rlm_env \<Rightarrow> (string \<times> json) list \<Rightarrow> (string \<times> json) option \<Rightarrow> int \<Rightarrow> (string \<times> json) option \<times> int" where
  "findLargest_loop env [] largest largestSize = (largest, largestSize)"
| "findLargest_loop env ((key, v) # rest) largest largestSize =
     (if getSize env v > largestSize then findLargest_loop env rest (Some (key, v)) (getSize env v)
      else findLargest_loop env rest largest largestSize)"

definition findLargestVariable :: "rlm_env \<Rightarrow> (string \<times> json) list \<Rightarrow> (string \<times> json) option" where
  "findLargestVariable env vars =
     (case findLargest_loop env vars None 0 of
        (largest, largestSize) \<Rightarrow> if largestSize > 1000 then largest else None)"

text \<open>
  \<open>chunkData\<close>. The chunk size of the array case is the constant 10, for which the loop
  of \<open>chunkArray\<close> returns (lemma \<open>chunkArray_loop_returns\<close> below); the other branch of
  the \<open>case\<close> is never taken.
\<close>

definition chunkData :: "json \<Rightarrow> json list" where
  "chunkData data =
     (case data of
        JStr x \<Rightarrow>
          (case chunkString x \<lparr>chunking_method = Semantic, chunkSize = Some 2000, overlap = None,
                                separator = None, customChunker = None\<rparr> of
             Some (Inr cs) \<Rightarrow> map JStr cs
           | _ \<Rightarrow> [])
      | JArr xs \<Rightarrow>
          (case chunkArray xs \<lparr>chunking_method = FixedSize, chunkSize = Some 10, overlap = None,
                                separator = None, customChunker = None\<rparr> of
             Some cs \<Rightarrow> map JArr cs
           | None \<Rightarrow> [])
      | _ \<Rightarrow> [data])"

text \<open>\<open>filterVariables\<close>; \<open>key in variables\<close> is read as: the object has the key.\<close>

fun filterVariables :: "(string \<times> json) list \<Rightarrow> string list \<Rightarrow> (string \<times> json) list \<Rightarrow> (string \<times> json) list" where
  "filterVariables vars [] filtered = filtered"
| "filterVariables vars (key # needs) filtered =
     (case map_of vars key of
        Some v \<Rightarrow> filterVariables vars needs (AList.update key v filtered)
      | None \<Rightarrow> filterVariables vars needs filtered)"

definition serializeValue :: "rlm_env \<Rightarrow> json \<Rightarrow> string" where
  "serializeValue env v =
     (case v of
        JStr x \<Rightarrow> x
      | JNum r \<Rightarrow> stringify env v
      | JBool b \<Rightarrow> stringify env v
      | _ \<Rightarrow> pretty env v)"

fun context_dump :: "rlm_env \<Rightarrow> (string \<times> json) list \<Rightarrow> string" where
  "context_dump env [] = []"
| "context_dump env ((key, v) # rest) =
     (let valueStr = serializeValue env v in
      (if length valueStr < 5000
       then ''## '' @ key @ '':'' @ [CHR 0x0A] @ valueStr @ [CHR 0x0A, CHR 0x0A]
       else ''## '' @ key @ '':'' @ [CHR 0x0A] @ js_slice valueStr 0 5000 @ ''... (truncated, ''
            @ decimal (length valueStr) @ '' total chars)'' @ [CHR 0x0A, CHR 0x0A])
      @ context_dump env rest)"

definition buildPromptWithContext :: "rlm_env \<Rightarrow> string \<Rightarrow> (string \<times> json) list \<Rightarrow> string" where
  "buildPromptWithContext env prompt vars =
     prompt @ [CHR 0x0A, CHR 0x0A] @ ''# Available Context:'' @ [CHR 0x0A, CHR 0x0A]
     @ context_dump env vars"

definition buildTrajectory :: "rlm_env \<Rightarrow> rlm_state \<Rightarrow> RLMTrajectory \<times> rlm_state" where
  "buildTrajectory env st =
     (case now env st of
        (t, st') \<Rightarrow>
          (\<lparr>traj_id = fresh env (length (trajectory st)),
            rootCall = (case trajectory st of [] \<Rightarrow> None | c # _ \<Rightarrow> Some c),
            allCalls = trajectory st,
            totalCalls = length (trajectory st),
            maxDepth = (case trajectory st of
                          [] \<Rightarrow> None
                        | c # cs \<Rightarrow> Some (fold max (map call_depth cs) (call_depth c))),
            totalTokens = 0,
            traj_executionTime = t - rlm_startTime st\<rparr>, st'))"

subsection \<open>One call\<close>

definition depth_exceeded :: "RLMExecutor \<Rightarrow> string" where
  "depth_exceeded ex = ''Max recursion depth ('' @ show_int (maxRecursionDepth ex) @ '') exceeded''"

definition time_exceeded :: "RLMExecutor \<Rightarrow> string" where
  "time_exceeded ex = ''Max execution time ('' @ show_int (maxExecutionTime ex) @ ''ms) exceeded''"

text \<open>
  \<open>makeRLMCall\<close> up to its suspension: the two checks, then the call is recorded as
  running. \<open>Inl\<close> is the error thrown by a check; \<open>Inr\<close> the position of the call in the
  trajectory. The parameter \<open>callId\<close> is not used by the method.
\<close>

definition start_call ::
  "rlm_env \<Rightarrow> RLMExecutor \<Rightarrow> string \<Rightarrow> RLMContext \<Rightarrow> string \<Rightarrow> rlm_state \<Rightarrow> (thrown + nat) \<times> rlm_state" where
  "start_call env ex prompt ctx callId st =
     (if currentDepth ctx \<ge> maxRecursionDepth ex then (Inl (Error (depth_exceeded ex)), st)
      else case now env st of
        (t, st1) \<Rightarrow>
          if t - rlm_startTime st1 \<ge> maxExecutionTime ex then (Inl (Error (time_exceeded ex)), st1)
          else case now env st1 of
            (t2, st2) \<Rightarrow>
              (Inr (length (trajectory st2)),
               st2\<lparr>trajectory := trajectory st2 @
                     [\<lparr>call_id = fresh env (length (trajectory st2)),
                       call_prompt = prompt,
                       call_context = variables ctx,
                       call_depth = currentDepth ctx,
                       call_parentId = (if callStack ctx = [] then None else Some (last (callStack ctx))),
                       call_status = CallRunning,
                       call_result = None,
                       call_error = None,
                       call_startTime = Some t2,
                       call_endTime = None\<rparr>]\<rparr>))"

text \<open>The rest of \<open>makeRLMCall\<close>, when the provider has answered or thrown.\<close>

definition finish_call :: "rlm_env \<Rightarrow> nat \<Rightarrow> rlm_state \<Rightarrow> (thrown + string) \<times> rlm_state" where
  "finish_call env n st =
     (let c = trajectory st ! n;
          outcome = backend env n (buildPromptWithContext env (call_prompt c) (call_context c))
      in case now env st of
        (t, st1) \<Rightarrow>
          (case outcome of
             Inr text \<Rightarrow>
               (Inr text,
                st1\<lparr>trajectory := (trajectory st1)
                      [n := c\<lparr>call_status := CallCompleted, call_result := Some text, call_endTime := Some t\<rparr>]\<rparr>)
           | Inl e \<Rightarrow>
               (Inl e,
                st1\<lparr>trajectory := (trajectory st1)
                      [n := c\<lparr>call_status := CallFailed, call_error := Some (message_of e),
                              call_endTime := Some t\<rparr>]\<rparr>)))"

definition makeRLMCall ::
  "rlm_env \<Rightarrow> RLMExecutor \<Rightarrow> string \<Rightarrow> RLMContext \<Rightarrow> string \<Rightarrow> rlm_state \<Rightarrow> (thrown + string) \<times> rlm_state" where
  "makeRLMCall env ex prompt ctx callId st =
     (case start_call env ex prompt ctx callId st of
        (Inl e, st1) \<Rightarrow> (Inl e, st1)
      | (Inr n, st1) \<Rightarrow> finish_call env n st1)"

subsection \<open>Concurrent calls\<close>

text \<open>
  \<open>Promise.all\<close> over asynchronous callbacks started one after the other; each either
  throws before it reaches \<open>makeRLMCall\<close> (\<open>Inl\<close>) or makes one call. All of them are
  started. If one has thrown before its call, or a check of its call has thrown, that
  error (of the first such callback) rejects the whole before any provider answers. Otherwise the calls settle in the order the
  environment names, up to the first that fails, whose error rejects the whole; the
  calls still in flight then stay \<open>running\<close> in the trajectory. If none fails the results
  are returned in the order of the calls.
\<close>

fun start_all ::
  "rlm_env \<Rightarrow> RLMExecutor \<Rightarrow> (thrown + string \<times> RLMContext \<times> string) list \<Rightarrow> rlm_state
     \<Rightarrow> (thrown + nat) list \<times> rlm_state" where
  "start_all env ex [] st = ([], st)"
| "start_all env ex (Inl e # rest) st =
     (case start_all env ex rest st of (rs, st2) \<Rightarrow> (Inl e # rs, st2))"
| "start_all env ex (Inr (prompt, ctx, callId) # rest) st =
     (case start_call env ex prompt ctx callId st of
        (r, st1) \<Rightarrow> (case start_all env ex rest st1 of (rs, st2) \<Rightarrow> (r # rs, st2)))"

fun finish_all :: "rlm_env \<Rightarrow> nat list \<Rightarrow> rlm_state \<Rightarrow> thrown option \<times> rlm_state" where
  "finish_all env [] st = (None, st)"
| "finish_all env (n # rest) st =
     (case finish_call env n st of
        (Inl e, st1) \<Rightarrow> (Some e, st1)
      | (Inr text, st1) \<Rightarrow> finish_all env rest st1)"

definition call_order :: "rlm_env \<Rightarrow> nat list \<Rightarrow> nat list" where
  "call_order env ns =
     (let chosen = filter (\<lambda>n. n \<in> set ns) (remdups (order env ns))
      in chosen @ filter (\<lambda>n. n \<notin> set chosen) ns)"

definition promise_all ::
  "rlm_env \<Rightarrow> RLMExecutor \<Rightarrow> (thrown + string \<times> RLMContext \<times> string) list \<Rightarrow> rlm_state
     \<Rightarrow> (thrown + string list) \<times> rlm_state" where
  "promise_all env ex calls st =
     (case start_all env ex calls st of
        (started, st1) \<Rightarrow>
          (case [e. Inl e \<leftarrow> started] of
             e # _ \<Rightarrow> (Inl e, st1)
           | [] \<Rightarrow>
               (let ns = [n. Inr n \<leftarrow> started] in
                case finish_all env (call_order env ns) st1 of
                  (Some e, st2) \<Rightarrow> (Inl e, st2)
                | (None, st2) \<Rightarrow>
                    (Inr (map (\<lambda>n. case call_result (trajectory st2 ! n) of None \<Rightarrow> [] | Some r \<Rightarrow> r) ns),
                     st2))))"

subsection \<open>The four strategies\<close>

definition join_with :: "string \<Rightarrow> string list \<Rightarrow> string" where
  "join_with sep xs = (case xs of [] \<Rightarrow> [] | y # ys \<Rightarrow> foldl (\<lambda>acc z. acc @ sep @ z) y ys)"

definition lift_result :: "(thrown + string) \<times> rlm_state \<Rightarrow> (thrown + json) \<times> rlm_state" where
  "lift_result r = (case r of (Inl e, st) \<Rightarrow> (Inl e, st) | (Inr text, st) \<Rightarrow> (Inr (JStr text), st))"

definition deeper :: "RLMContext \<Rightarrow> (string \<times> json) list \<Rightarrow> string \<Rightarrow> RLMContext" where
  "deeper ctx vars label =
     ctx\<lparr>variables := vars, currentDepth := currentDepth ctx + 1, callStack := callStack ctx @ [label]\<rparr>"

definition mapReduceStrategy ::
  "rlm_env \<Rightarrow> RLMExecutor \<Rightarrow> string \<Rightarrow> RLMContext \<Rightarrow> rlm_state \<Rightarrow> (thrown + json) \<times> rlm_state" where
  "mapReduceStrategy env ex task ctx st =
     (case findLargestVariable env (variables ctx) of
        None \<Rightarrow> lift_result (makeRLMCall env ex task ctx ''direct-call'' st)
      | Some (varName, varData) \<Rightarrow>
          (let chunks = chunkData varData in
           if length chunks = 1 then lift_result (makeRLMCall env ex task ctx ''direct-call'' st)
           else
             (case promise_all env ex
                     (map (\<lambda>(idx, chunk).
                            Inr (''Process this chunk of data for the task: '' @ task
                                   @ [CHR 0x0A, CHR 0x0A] @ ''Chunk '' @ decimal (idx + 1) @ ''/''
                                   @ decimal (length chunks),
                                 deeper ctx
                                   (AList.update ''total_chunks'' (JNum (real (length chunks)))
                                     (AList.update ''chunk_index'' (JNum (real idx))
                                       (AList.update varName chunk (variables ctx))))
                                   (''map-'' @ decimal idx),
                                 ''map-'' @ decimal idx))
                          (enumerate 0 chunks))
                     st of
                (Inl e, st1) \<Rightarrow> (Inl e, st1)
              | (Inr mapResults, st1) \<Rightarrow>
                  lift_result
                    (makeRLMCall env ex
                       (''Aggregate these chunk results for the task: '' @ task @ [CHR 0x0A, CHR 0x0A]
                          @ ''You have '' @ decimal (length mapResults) @ '' chunk results to combine.'')
                       (deeper ctx (AList.update ''chunk_results'' (JArr (map JStr mapResults)) (variables ctx))
                          ''reduce'')
                       ''reduce'' st1))))"

definition decompositionPrompt :: "string \<Rightarrow> (string \<times> json) list \<Rightarrow> string" where
  "decompositionPrompt task vars =
     [CHR 0x0A] @ ''Given this task: '' @ task @ [CHR 0x0A, CHR 0x0A]
     @ ''Available context variables: '' @ join_with '', '' (map fst vars) @ [CHR 0x0A, CHR 0x0A]
     @ ''Break this task into 2-5 independent subtasks that can be solved separately and then combined.''
     @ [CHR 0x0A]
     @ ''Respond with JSON array: [{ '' @ [CHR 0x22] @ ''subtask'' @ [CHR 0x22] @ '': ''
     @ [CHR 0x22] @ ''description'' @ [CHR 0x22] @ '', '' @ [CHR 0x22] @ ''needs'' @ [CHR 0x22] @ '': [''
     @ [CHR 0x22] @ ''var1'' @ [CHR 0x22] @ '', '' @ [CHR 0x22] @ ''var2'' @ [CHR 0x22] @ ''] }]''
     @ [CHR 0x0A]"

text \<open>
  One element of the parsed decomposition, as the callback of \<open>subtasks.map\<close> reads it.
  The response is not validated: reading \<open>needs\<close> of \<open>null\<close> and iterating a \<open>needs\<close>
  that is not iterable throw a \<open>TypeError\<close> (with the engine's wording), a string is
  iterated character by character, and other values are coerced by the host.
\<close>

definition subtask_call ::
  "rlm_env \<Rightarrow> RLMContext \<Rightarrow> nat \<Rightarrow> json \<Rightarrow> thrown + string \<times> RLMContext \<times> string" where
  "subtask_call env ctx idx st =
     (if st = JNull then Inl (Error (''Cannot read properties of null (reading '' @ [CHR 0x27] @ ''needs'' @ [CHR 0x27] @ '')''))
      else
        (case json_get st ''needs'' of
           Some (JArr xs) \<Rightarrow>
             Inr ((case json_get st ''subtask'' of Some (JStr p) \<Rightarrow> p | other \<Rightarrow> to_text env other),
                  deeper ctx
                    (filterVariables (variables ctx)
                       (map (\<lambda>k. case k of JStr x \<Rightarrow> x | _ \<Rightarrow> to_key env k) xs) [])
                    (''subtask-'' @ decimal idx),
                  ''subtask-'' @ decimal idx)
         | Some (JStr x) \<Rightarrow>
             Inr ((case json_get st ''subtask'' of Some (JStr p) \<Rightarrow> p | other \<Rightarrow> to_text env other),
                  deeper ctx (filterVariables (variables ctx) (map (\<lambda>c. [c]) x) [])
                    (''subtask-'' @ decimal idx),
                  ''subtask-'' @ decimal idx)
         | _ \<Rightarrow> Inl (Error ''st.needs is not iterable'')))"

definition recursiveDecompositionStrategy ::
  "rlm_env \<Rightarrow> RLMExecutor \<Rightarrow> string \<Rightarrow> RLMContext \<Rightarrow> rlm_state \<Rightarrow> (thrown + json) \<times> rlm_state" where
  "recursiveDecompositionStrategy env ex task ctx st =
     (case makeRLMCall env ex (decompositionPrompt task (variables ctx)) ctx ''decompose'' st of
        (Inl e, st1) \<Rightarrow> (Inl e, st1)
      | (Inr decomposition, st1) \<Rightarrow>
          (case JSON_parse (parser env) decomposition of
             None \<Rightarrow> lift_result (makeRLMCall env ex task ctx ''direct-call'' st1)
           | Some (JArr subtasks) \<Rightarrow>
               (case promise_all env ex
                       (map (\<lambda>(idx, st). subtask_call env ctx idx st) (enumerate 0 subtasks)) st1 of
                  (Inl e, st2) \<Rightarrow> (Inl e, st2)
                | (Inr subtaskResults, st2) \<Rightarrow>
                    lift_result
                      (makeRLMCall env ex (''Combine these subtask results to complete: '' @ task)
                         (deeper ctx
                            (AList.update ''subtask_results'' (JArr (map JStr subtaskResults)) (variables ctx))
                            ''combine'')
                         ''combine'' st2))
           | Some _ \<Rightarrow> (Inl (Error ''subtasks.map is not a function''), st1)))"

text \<open>The \<open>for\<close> loop of \<open>sequentialProcessingStrategy\<close>, over the items still to process.\<close>

fun sequential_loop ::
  "rlm_env \<Rightarrow> RLMExecutor \<Rightarrow> string \<Rightarrow> RLMContext \<Rightarrow> string \<Rightarrow> nat \<Rightarrow> json list \<Rightarrow> nat \<Rightarrow> json
     \<Rightarrow> rlm_state \<Rightarrow> (thrown + json) \<times> rlm_state" where
  "sequential_loop env ex task ctx varName n_items [] i accumulatedResult st = (Inr accumulatedResult, st)"
| "sequential_loop env ex task ctx varName n_items (item # rest) i accumulatedResult st =
     (case makeRLMCall env ex
             (task @ [CHR 0x0A, CHR 0x0A] @ ''Processing item '' @ decimal (i + 1) @ ''/'' @ decimal n_items
                @ (if truthy accumulatedResult then ''. Previous result available.'' else []))
             (deeper ctx
                (AList.update ''total_items'' (JNum (real n_items))
                  (AList.update ''item_index'' (JNum (real i))
                    (AList.update ''previous_result'' accumulatedResult
                      (AList.update varName item (variables ctx)))))
                (''seq-'' @ decimal i))
             (''seq-'' @ decimal i) st of
        (Inl e, st1) \<Rightarrow> (Inl e, st1)
      | (Inr r, st1) \<Rightarrow> sequential_loop env ex task ctx varName n_items rest (i + 1) (JStr r) st1)"

definition sequentialProcessingStrategy ::
  "rlm_env \<Rightarrow> RLMExecutor \<Rightarrow> string \<Rightarrow> RLMContext \<Rightarrow> rlm_state \<Rightarrow> (thrown + json) \<times> rlm_state" where
  "sequentialProcessingStrategy env ex task ctx st =
     (case findLargestVariable env (variables ctx) of
        None \<Rightarrow> lift_result (makeRLMCall env ex task ctx ''direct-call'' st)
      | Some (varName, varData) \<Rightarrow>
          (let items = (case varData of JArr xs \<Rightarrow> xs | _ \<Rightarrow> chunkData varData)
           in sequential_loop env ex task ctx varName (length items) items 0 JNull st))"

definition treeTraversalStrategy ::
  "rlm_env \<Rightarrow> RLMExecutor \<Rightarrow> string \<Rightarrow> RLMContext \<Rightarrow> rlm_state \<Rightarrow> (thrown + json) \<times> rlm_state" where
  "treeTraversalStrategy env ex task ctx st = lift_result (makeRLMCall env ex task ctx ''tree-traversal'' st)"

definition processWithStrategy ::
  "rlm_env \<Rightarrow> RLMExecutor \<Rightarrow> string \<Rightarrow> RLMContext \<Rightarrow> ProcessingStrategy \<Rightarrow> rlm_state
     \<Rightarrow> (thrown + json) \<times> rlm_state" where
  "processWithStrategy env ex task ctx strat st =
     (case strat of
        MapReduce \<Rightarrow> mapReduceStrategy env ex task ctx st
      | RecursiveDecomposition \<Rightarrow> recursiveDecompositionStrategy env ex task ctx st
      | SequentialProcessing \<Rightarrow> sequentialProcessingStrategy env ex task ctx st
      | TreeTraversal \<Rightarrow> treeTraversalStrategy env ex task ctx st)"

text \<open>
  \<open>execute\<close>. It always returns a result: an error thrown by the strategy is caught and
  reported with the trajectory recorded so far.
\<close>

definition execute ::
  "rlm_env \<Rightarrow> RLMExecutor \<Rightarrow> string \<Rightarrow> (string \<times> json) list \<Rightarrow> ProcessingStrategy \<Rightarrow> RLMExecutionResult" where
  "execute env ex task vars strat =
     (let st0 = \<lparr>trajectory = [], rlm_startTime = clock env 0, reads = 1\<rparr>;
          ctx = \<lparr>variables = vars, currentDepth = 0, callStack = []\<rparr>
      in case processWithStrategy env ex task ctx strat st0 of
        (Inr r, st1) \<Rightarrow>
          (case now env st1 of
             (t, st2) \<Rightarrow>
               \<lparr>rlm_success = True, rlm_result = Some r,
                rlm_trajectory = fst (buildTrajectory env st2),
                rlm_error = None,
                rlm_executionTime = t - rlm_startTime st1\<rparr>)
      | (Inl e, st1) \<Rightarrow>
          (case buildTrajectory env st1 of
             (traj, st2) \<Rightarrow>
               \<lparr>rlm_success = False, rlm_result = None,
                rlm_trajectory = traj,
                rlm_error = Some (message_of e),
                rlm_executionTime = fst (now env st2) - rlm_startTime st1\<rparr>))"

subsection \<open>Facts about the helpers\<close>

lemma chunkArray_loop_returns:
  assumes "0 < csize" "0 \<le> i"
  shows "\<exists>cs. chunkArray_loop data csize i chunks = Some cs"
  using assms
proof (induction "length data - nat i" arbitrary: i chunks rule: less_induct)
  case less
  show ?case
  proof (cases "i < int (length data)")
    case True
    have "length data - nat (i + csize) < length data - nat i"
      using True less.prems by linarith
    from less.hyps[OF this, of "chunks @ [js_slice data i (i + csize)]"] less.prems
    obtain cs where "chunkArray_loop data csize (i + csize) (chunks @ [js_slice data i (i + csize)]) = Some cs"
      by auto
    with True show ?thesis by (subst chunkArray_loop.simps) simp
  next
    case False
    then show ?thesis by (subst chunkArray_loop.simps) simp
  qed
qed

lemma match_sentences_nonempty: "\<forall>x \<in> set (match_sentences body terms xs). x \<noteq> []"
  by (induction xs arbitrary: body terms) auto

lemma semanticChunking_loop_nonempty:
  "\<forall>x \<in> set sentences. x \<noteq> [] \<Longrightarrow> sentences \<noteq> [] \<or> currentChunk \<noteq> [] \<or> chunks \<noteq> [] \<Longrightarrow>
   semanticChunking_loop targetSize sentences currentChunk chunks \<noteq> []"
  by (induction sentences arbitrary: currentChunk chunks) auto

lemma semanticChunking_nonempty: "x \<noteq> [] \<Longrightarrow> semanticChunking x targetSize \<noteq> []"
  unfolding semanticChunking_def Let_def
  using match_sentences_nonempty[of "[]" "[]" x]
  by (intro semanticChunking_loop_nonempty) auto

lemma findLargest_loop_size:
  "findLargest_loop env vars largest largestSize = (l, s) \<Longrightarrow>
   (\<forall>kv \<in> set vars. getSize env (snd kv) \<le> bound) \<Longrightarrow> largestSize \<le> bound \<Longrightarrow> s \<le> bound"
  by (induction vars arbitrary: largest largestSize) (auto split: if_splits)

lemma findLargestVariable_small:
  assumes "\<forall>kv \<in> set vars. getSize env (snd kv) \<le> 1000"
  shows "findLargestVariable env vars = None"
proof -
  obtain l s where e: "findLargest_loop env vars None 0 = (l, s)"
    by (cases "findLargest_loop env vars None 0")
  from findLargest_loop_size[OF e assms] have "s \<le> 1000" by simp
  with e show ?thesis by (simp add: findLargestVariable_def)
qed

lemma findLargest_loop_found:
  "findLargest_loop env vars largest largestSize = (Some (k, v), s) \<Longrightarrow>
   (\<forall>k' v'. largest = Some (k', v') \<longrightarrow> getSize env v' = largestSize) \<Longrightarrow> getSize env v = s"
  by (induction vars arbitrary: largest largestSize) (auto split: if_splits)

lemma findLargestVariable_large:
  assumes "findLargestVariable env vars = Some (k, v)"
  shows "getSize env v > 1000"
proof -
  obtain l s where e: "findLargest_loop env vars None 0 = (l, s)"
    by (cases "findLargest_loop env vars None 0")
  with assms have "l = Some (k, v)" "s > 1000"
    by (auto simp: findLargestVariable_def split: if_splits)
  with e findLargest_loop_found[of env vars None 0 k v s] show ?thesis by simp
qed

lemma sequential_items_nonempty:
  assumes "getSize env v > 1000"
  shows "(case v of JArr xs \<Rightarrow> xs | _ \<Rightarrow> chunkData v) \<noteq> []"
proof (cases v)
  case (JStr x)
  with assms have "x \<noteq> []" by (auto simp: getSize_def)
  from semanticChunking_nonempty[OF this] JStr show ?thesis
    by (simp add: chunkData_def chunkString_def)
next
  case (JArr xs)
  with assms show ?thesis by (auto simp: getSize_def)
qed (simp_all add: chunkData_def)

subsection \<open>Facts about one call\<close>

lemma start_call_too_deep:
  "currentDepth ctx \<ge> maxRecursionDepth ex \<Longrightarrow>
   start_call env ex prompt ctx callId st = (Inl (Error (depth_exceeded ex)), st)"
  by (simp add: start_call_def)

lemma start_call_too_late:
  "currentDepth ctx < maxRecursionDepth ex \<Longrightarrow>
   clock env (reads st) - rlm_startTime st \<ge> maxExecutionTime ex \<Longrightarrow>
   start_call env ex prompt ctx callId st = (Inl (Error (time_exceeded ex)), st\<lparr>reads := Suc (reads st)\<rparr>)"
  by (simp add: start_call_def now_def)

lemma makeRLMCall_too_deep:
  "currentDepth ctx \<ge> maxRecursionDepth ex \<Longrightarrow>
   makeRLMCall env ex prompt ctx callId st = (Inl (Error (depth_exceeded ex)), st)"
  by (simp add: makeRLMCall_def start_call_too_deep)

lemma makeRLMCall_too_late:
  "currentDepth ctx < maxRecursionDepth ex \<Longrightarrow>
   clock env (reads st) - rlm_startTime st \<ge> maxExecutionTime ex \<Longrightarrow>
   makeRLMCall env ex prompt ctx callId st
     = (Inl (Error (time_exceeded ex)), st\<lparr>reads := Suc (reads st)\<rparr>)"
  by (simp add: makeRLMCall_def start_call_too_late)

lemma finish_call_length:
  "length (trajectory (snd (finish_call env n st))) = length (trajectory st)"
  by (auto simp: finish_call_def Let_def now_def split: sum.splits)

lemma finish_call_status:
  "n < length (trajectory st) \<Longrightarrow>
   call_status (trajectory (snd (finish_call env n st)) ! n) = CallCompleted
   \<or> call_status (trajectory (snd (finish_call env n st)) ! n) = CallFailed"
  by (auto simp: finish_call_def Let_def now_def split: sum.splits)

lemma makeRLMCall_admitted:
  assumes "currentDepth ctx < maxRecursionDepth ex"
    and "clock env (reads st) - rlm_startTime st < maxExecutionTime ex"
  shows "length (trajectory (snd (makeRLMCall env ex prompt ctx callId st))) = Suc (length (trajectory st))"
    and "call_status (trajectory (snd (makeRLMCall env ex prompt ctx callId st)) ! length (trajectory st))
           = CallCompleted
         \<or> call_status (trajectory (snd (makeRLMCall env ex prompt ctx callId st)) ! length (trajectory st))
           = CallFailed"
proof -
  obtain st1 where s: "start_call env ex prompt ctx callId st = (Inr (length (trajectory st)), st1)"
    "length (trajectory st1) = Suc (length (trajectory st))"
    using assms by (simp add: start_call_def now_def)
  then have m: "makeRLMCall env ex prompt ctx callId st = finish_call env (length (trajectory st)) st1"
    by (simp add: makeRLMCall_def)
  show "length (trajectory (snd (makeRLMCall env ex prompt ctx callId st))) = Suc (length (trajectory st))"
    using s(2) by (simp add: m finish_call_length)
  show "call_status (trajectory (snd (makeRLMCall env ex prompt ctx callId st)) ! length (trajectory st))
           = CallCompleted
         \<or> call_status (trajectory (snd (makeRLMCall env ex prompt ctx callId st)) ! length (trajectory st))
           = CallFailed"
    unfolding m using s(2) by (intro finish_call_status) simp
qed

lemma lift_result_Inl: "lift_result (Inl e, st) = (Inl e, st)"
  by (simp add: lift_result_def)

lemma lift_result_state: "snd (lift_result r) = snd r"
  by (cases r; cases "fst r") (auto simp: lift_result_def)

end
